theory Spec2Isabelle
  imports Main "HOL-Library.Word"
begin

unbundle bit_operations_syntax

section \<open>c-hashtable: a string-keyed chained hash table\<close>

text \<open>
  The development embeds \<^verbatim>\<open>hashtable.c\<close> of joelguittet/c-hashtable.

  Conventions of the embedding:
  \<^item> A pointer is an address, a natural number; \<^verbatim>\<open>NULL\<close> is address 0.
  \<^item> A C string (\<^verbatim>\<open>char *\<close>) is the list of bytes found at its address. The
    string ends at the first zero byte, or at the end of the list (where the
    terminator sits). Every function that reads a string stops there, as the C loops do.
  \<^item> \<^verbatim>\<open>unsigned long\<close> is 64 bits wide and plain \<^verbatim>\<open>char\<close> is signed (the
    x86-64 System V ABI, where \<^verbatim>\<open>semaphore.h\<close> is at home). The hash loop itself is
    written for any width and either signedness; the table functions use that instance.
  \<^item> The assertions \<^verbatim>\<open>assert(NULL != hashtable)\<close> and \<^verbatim>\<open>assert(NULL != key)\<close>
    are preconditions: tables and keys are values here, never \<^verbatim>\<open>NULL\<close>.
\<close>

subsection \<open>Strings\<close>

type_synonym ptr = nat
type_synonym byte = "8 word"
type_synonym cstring = "byte list"

abbreviation (input) NULL :: ptr where
  "NULL \<equiv> 0"

text \<open>The contents of a string: the bytes before the terminating zero.\<close>

definition cstr :: "cstring \<Rightarrow> cstring" where
  "cstr s = takeWhile (\<lambda>c. c \<noteq> 0) s"

text \<open>\<^verbatim>\<open>strdup\<close> copies the contents (and the terminator, which the list's end stands for).\<close>

definition strdup :: "cstring \<Rightarrow> cstring" where
  "strdup s = cstr s"

text \<open>
  \<^verbatim>\<open>strcmp\<close> walks both strings, comparing bytes as \<^verbatim>\<open>unsigned char\<close>, until they
  differ or both end. The code only tests the result against 0.
\<close>

fun strcmp :: "cstring \<Rightarrow> cstring \<Rightarrow> int" where
  "strcmp (x # xs) (y # ys) =
     (if x \<noteq> y then uint x - uint y else if x = 0 then 0 else strcmp xs ys)"
| "strcmp (x # xs) [] = uint x"
| "strcmp [] (y # ys) = - uint y"
| "strcmp [] [] = 0"

subsection \<open>The hash function\<close>

text \<open>
  \<^verbatim>\<open>int c = *key++\<close> converts a \<^verbatim>\<open>char\<close> to \<^verbatim>\<open>int\<close>: sign-extended where plain
  \<^verbatim>\<open>char\<close> is signed, zero-extended where it is unsigned.
\<close>

definition char_to_int :: "bool \<Rightarrow> byte \<Rightarrow> int" where
  "char_to_int char_signed b = (if char_signed then sint b else uint b)"

text \<open>
  The loop of \<^verbatim>\<open>hashtable_compute_hash\<close>:
  \<^verbatim>\<open>while (0 != (c = *key++)) { hash = ((hash << 5) + hash) + c; }\<close>
  on an \<^verbatim>\<open>unsigned long\<close> of \<open>LENGTH('a)\<close> bits. Adding the \<^verbatim>\<open>int\<close> \<open>c\<close> converts
  it to \<^verbatim>\<open>unsigned long\<close> first, which is \<open>word_of_int\<close>.
\<close>

fun djb2_loop :: "bool \<Rightarrow> 'a::len word \<Rightarrow> cstring \<Rightarrow> 'a word" where
  "djb2_loop char_signed hash [] = hash"
| "djb2_loop char_signed hash (b # key) =
     (let c = char_to_int char_signed b in
      if 0 \<noteq> c
      then djb2_loop char_signed ((push_bit 5 hash + hash) + word_of_int c) key
      else hash)"

definition djb2 :: "bool \<Rightarrow> cstring \<Rightarrow> 'a::len word" where
  "djb2 char_signed key = djb2_loop char_signed 5381 key"

subsection \<open>Data model\<close>

text \<open>
  \<^verbatim>\<open>hashtable_element_t\<close>: the owned copy of the key and the element pointer. The
  \<^verbatim>\<open>next\<close> link is the tail of the list the element sits in: a chain is owned by
  its bucket alone and nothing else points into it, so a bucket's chain is a list of
  elements in link order. The element struct and its key copy live and die with their
  list cell: allocating them is adding the cell, freeing them is dropping it.
\<close>

record hashtable_element_t =
  key :: cstring
  eptr :: ptr

type_synonym chain = "hashtable_element_t list"

text \<open>
  \<^verbatim>\<open>hashtable_t\<close>: the array of bucket heads, its length \<^verbatim>\<open>size\<close>, the element
  count and the \<^verbatim>\<open>alloc\<close> flag. \<^verbatim>\<open>count\<close> is a \<^verbatim>\<open>size_t\<close>; it is a natural number
  here, since nothing below depends on its wrapping. The semaphore is left out: the
  embedding is sequential.
\<close>

record hashtable_t =
  table :: "chain list"
  size_tab :: nat
  count :: nat
  alloc :: bool

text \<open>
  Memory outside the table: the byte blocks that element pointers refer to, by
  address. It holds the caller's buffers and the copies the table makes when
  \<^verbatim>\<open>alloc\<close> is set.
\<close>

type_synonym heap = "ptr \<rightharpoonup> byte list"

definition free :: "heap \<Rightarrow> ptr \<Rightarrow> heap" where
  "free h p = h(p := None)"

text \<open>
  \<^verbatim>\<open>memcpy(dst, src, n)\<close> into the block just obtained from \<^verbatim>\<open>malloc(n)\<close>: the
  block holds the first \<open>n\<close> bytes found at \<open>src\<close>. (Reading more bytes than the
  caller's buffer has is the caller's undefined behaviour; the model copies what is there.)
\<close>

definition memcpy :: "heap \<Rightarrow> ptr \<Rightarrow> ptr \<Rightarrow> nat \<Rightarrow> heap" where
  "memcpy h dst src n = h(dst \<mapsto> take n (case h src of Some bs \<Rightarrow> bs | None \<Rightarrow> []))"

text \<open>
  What the allocator answers during one call of \<^verbatim>\<open>hashtable_add\<close>, one field for
  each allocation site: \<^verbatim>\<open>malloc(sizeof(hashtable_element_t))\<close>, \<^verbatim>\<open>strdup(key)\<close> and
  \<^verbatim>\<open>malloc(size)\<close> (the address of the new block, \<^verbatim>\<open>NULL\<close> on failure).
\<close>

record malloc_results =
  element_ok :: bool
  key_ok :: bool
  value_p :: ptr

subsection \<open>hashtable\_create\<close>

text \<open>
  Two allocations, the instance and the bucket array; either may fail, and then the
  result is \<^verbatim>\<open>NULL\<close> (\<open>None\<close>). The bucket array is obtained with
  \<^verbatim>\<open>malloc(size * sizeof(hashtable_element_t *))\<close>. The product is computed in
  \<^verbatim>\<open>size_t\<close>, 64 bits wide with pointers of 8 bytes, and wraps around: from
  \<^verbatim>\<open>size\<close> \<open>2 ^ 61\<close> on the array has fewer slots than \<^verbatim>\<open>size\<close> says. A table of size
  0 can be created as well; hashing into it divides by zero.
\<close>

definition size_t_mult :: "nat \<Rightarrow> nat \<Rightarrow> nat" where
  "size_t_mult a b = (a * b) mod 2 ^ 64"

definition hashtable_create :: "bool \<Rightarrow> bool \<Rightarrow> nat \<Rightarrow> bool \<Rightarrow> hashtable_t option" where
  "hashtable_create instance_ok table_ok sz al =
     (if \<not> instance_ok then None
      else if \<not> table_ok then None
      else Some \<lparr>table = replicate (size_t_mult sz 8 div 8) [], size_tab = sz, count = 0,
                  alloc = al\<rparr>)"

subsection \<open>hashtable\_compute\_hash\<close>

text \<open>
  \<^verbatim>\<open>hash % hashtable->size\<close> divides by zero when \<^verbatim>\<open>size\<close> is 0, and the program
  traps there, while \<open>mod\<close> returns its first argument. The definition stands for
  the C expression on tables with at least one bucket, and these are the tables the
  theorems about hashing functions are about: each one assumes
  \<open>0 < size_tab hashtable\<close> and a bucket array of that length, or is about an explicit
  table that has them.
\<close>

definition hashtable_compute_hash :: "hashtable_t \<Rightarrow> cstring \<Rightarrow> nat" where
  "hashtable_compute_hash hashtable k =
     unat (djb2 True k :: 64 word) mod size_tab hashtable"

subsection \<open>hashtable\_add\<close>

text \<open>
  The body of the \<^verbatim>\<open>if (!strcmp(curr->key, key))\<close> branch: free the old copy when the
  table owns it, then store the new element, copied or as given. A failed
  \<^verbatim>\<open>malloc\<close> has already been assigned to \<^verbatim>\<open>curr->e\<close> when the function returns -1.
\<close>

definition add_found ::
  "malloc_results \<Rightarrow> bool \<Rightarrow> heap \<Rightarrow> hashtable_element_t \<Rightarrow> ptr \<Rightarrow> nat
    \<Rightarrow> int \<times> heap \<times> hashtable_element_t" where
  "add_found m al h cur e sz =
     (let (h1, cur1) =
        (if al \<and> eptr cur \<noteq> NULL
         then (free h (eptr cur), cur\<lparr>eptr := NULL\<rparr>)
         else (h, cur))
      in
        if al \<and> e \<noteq> NULL \<and> sz \<noteq> 0 then
          (if value_p m = NULL
           then (- 1, h1, cur1\<lparr>eptr := NULL\<rparr>)
           else (0, memcpy h1 (value_p m) e sz, cur1\<lparr>eptr := value_p m\<rparr>))
        else (0, h1, cur1\<lparr>eptr := e\<rparr>))"

text \<open>
  The \<^verbatim>\<open>while (NULL != cur)\<close> loop of \<^verbatim>\<open>hashtable_add\<close> over a chain. \<open>None\<close>: the
  loop ran off the end without a match. \<open>Some\<close>: the function returned from inside
  the loop, with the return value, the memory and the chain as they are then.
\<close>

fun add_loop ::
  "malloc_results \<Rightarrow> bool \<Rightarrow> heap \<Rightarrow> cstring \<Rightarrow> ptr \<Rightarrow> nat \<Rightarrow> chain
    \<Rightarrow> (int \<times> heap \<times> chain) option" where
  "add_loop m al h k e sz [] = None"
| "add_loop m al h k e sz (cur # rest) =
     (if strcmp (key cur) k = 0
      then (case add_found m al h cur e sz of
              (r, h', cur') \<Rightarrow> Some (r, h', cur' # rest))
      else (case add_loop m al h k e sz rest of
              None \<Rightarrow> None
            | Some (r, h', rest') \<Rightarrow> Some (r, h', cur # rest')))"

text \<open>
  After the loop: allocate the element, duplicate the key, store the element, link the
  new element behind \<^verbatim>\<open>last\<close> (or as the bucket head when the chain is empty), increment
  \<^verbatim>\<open>count\<close>. Each failed allocation returns -1 after freeing what this call allocated.
\<close>

definition hashtable_add ::
  "malloc_results \<Rightarrow> heap \<Rightarrow> hashtable_t \<Rightarrow> cstring \<Rightarrow> ptr \<Rightarrow> nat
    \<Rightarrow> int \<times> heap \<times> hashtable_t" where
  "hashtable_add m h hashtable k e sz =
     (let hash = hashtable_compute_hash hashtable k;
          bucket = table hashtable ! hash
      in case add_loop m (alloc hashtable) h k e sz bucket of
           Some (r, h', bucket') \<Rightarrow>
             (r, h', hashtable\<lparr>table := (table hashtable)[hash := bucket']\<rparr>)
         | None \<Rightarrow>
             if \<not> element_ok m then (- 1, h, hashtable)
             else if \<not> key_ok m then (- 1, h, hashtable)
             else if alloc hashtable \<and> e \<noteq> NULL \<and> sz \<noteq> 0 then
               (if value_p m = NULL then (- 1, h, hashtable)
                else (0, memcpy h (value_p m) e sz,
                      hashtable\<lparr>table := (table hashtable)
                                 [hash := bucket @ [\<lparr>key = strdup k, eptr = value_p m\<rparr>]],
                               count := count hashtable + 1\<rparr>))
             else (0, h,
                   hashtable\<lparr>table := (table hashtable)
                              [hash := bucket @ [\<lparr>key = strdup k, eptr = e\<rparr>]],
                            count := count hashtable + 1\<rparr>))"

subsection \<open>hashtable\_get\_count, hashtable\_has\_key, hashtable\_lookup\<close>

definition hashtable_get_count :: "hashtable_t \<Rightarrow> nat" where
  "hashtable_get_count hashtable = count hashtable"

fun has_key_loop :: "cstring \<Rightarrow> chain \<Rightarrow> bool" where
  "has_key_loop k [] = False"
| "has_key_loop k (cur # rest) =
     (if strcmp (key cur) k = 0 then True else has_key_loop k rest)"

definition hashtable_has_key :: "hashtable_t \<Rightarrow> cstring \<Rightarrow> bool" where
  "hashtable_has_key hashtable k =
     has_key_loop k (table hashtable ! hashtable_compute_hash hashtable k)"

fun lookup_loop :: "cstring \<Rightarrow> chain \<Rightarrow> ptr" where
  "lookup_loop k [] = NULL"
| "lookup_loop k (cur # rest) =
     (if strcmp (key cur) k = 0 then eptr cur else lookup_loop k rest)"

definition hashtable_lookup :: "hashtable_t \<Rightarrow> cstring \<Rightarrow> ptr" where
  "hashtable_lookup hashtable k =
     lookup_loop k (table hashtable ! hashtable_compute_hash hashtable k)"

subsection \<open>hashtable\_get\_keys\<close>

text \<open>
  The caller's variable behind the out-parameter \<^verbatim>\<open>char ***keys\<close> holds a pointer:
  whatever the caller left there, \<^verbatim>\<open>NULL\<close>, or the address of an array of key
  references. A slot of a freshly allocated array is \<open>None\<close> until it is written; a
  written slot refers to a key string of the table (not a copy).
\<close>

datatype keys_var = Indeterminate | Null_keys | Key_array "cstring option list"

text \<open>The inner \<^verbatim>\<open>while\<close> loop: \<^verbatim>\<open>(*keys)[index] = curr->key; index++\<close>.\<close>

fun keys_loop :: "cstring option list \<Rightarrow> nat \<Rightarrow> chain \<Rightarrow> cstring option list \<times> nat" where
  "keys_loop ks index [] = (ks, index)"
| "keys_loop ks index (cur # rest) =
     keys_loop (ks[index := Some (key cur)]) (index + 1) rest"

text \<open>
  \<^verbatim>\<open>count\<close> is returned in every case. \<^verbatim>\<open>*keys\<close> is assigned only when
  \<^verbatim>\<open>0 < count\<close>, and then with whatever \<^verbatim>\<open>malloc\<close> returned, \<^verbatim>\<open>NULL\<close> included.
\<close>

definition hashtable_get_keys :: "bool \<Rightarrow> hashtable_t \<Rightarrow> keys_var \<Rightarrow> nat \<times> keys_var" where
  "hashtable_get_keys array_ok hashtable keys =
     (let cnt = count hashtable in
      if 0 < cnt then
        (if array_ok
         then (cnt, Key_array (fst (fold (\<lambda>hash (ks, index). keys_loop ks index (table hashtable ! hash))
                                      [0..<size_tab hashtable] (replicate cnt None, 0))))
         else (cnt, Null_keys))
      else (cnt, keys))"

subsection \<open>hashtable\_remove\<close>

text \<open>
  The loop of \<^verbatim>\<open>hashtable_remove\<close>: at the first match, remember \<^verbatim>\<open>curr->e\<close>, unlink
  \<^verbatim>\<open>cur\<close> and free it with its key. \<open>None\<close>: no match.
\<close>

fun remove_loop :: "cstring \<Rightarrow> chain \<Rightarrow> (ptr \<times> chain) option" where
  "remove_loop k [] = None"
| "remove_loop k (cur # rest) =
     (if strcmp (key cur) k = 0 then Some (eptr cur, rest)
      else (case remove_loop k rest of
              None \<Rightarrow> None
            | Some (e, rest') \<Rightarrow> Some (e, cur # rest')))"

text \<open>The function writes the bucket (or the predecessor's link) and nothing else.\<close>

definition hashtable_remove :: "hashtable_t \<Rightarrow> cstring \<Rightarrow> ptr \<times> hashtable_t" where
  "hashtable_remove hashtable k =
     (let hash = hashtable_compute_hash hashtable k in
      case remove_loop k (table hashtable ! hash) of
        Some (e, bucket') \<Rightarrow> (e, hashtable\<lparr>table := (table hashtable)[hash := bucket']\<rparr>)
      | None \<Rightarrow> (NULL, hashtable))"

subsection \<open>The semaphore\<close>

text \<open>
  What a call does with the semaphore and with the table, in program order.
  \<open>Table_access\<close> is a step that reads or writes the instance, its bucket array or an
  element; \<open>Free_instance\<close> is \<^verbatim>\<open>free(hashtable)\<close>. The assertions on the arguments
  come before \<^verbatim>\<open>sem_wait\<close> and look at the pointers only.
\<close>

datatype event = Sem_wait | Sem_post | Sem_close | Table_access | Free_instance

text \<open>
  A call runs under the lock when \<^verbatim>\<open>sem_wait\<close> is the first thing it does,
  \<^verbatim>\<open>sem_post\<close> the last, and everything between them is an access to the table.
\<close>

fun under_lock :: "event list \<Rightarrow> bool" where
  "under_lock (Sem_wait # es) =
     (es \<noteq> [] \<and> last es = Sem_post \<and> list_all (\<lambda>ev. ev = Table_access) (butlast es))"
| "under_lock es = False"

text \<open>
  \<^verbatim>\<open>hashtable_add\<close> with its events. \<^verbatim>\<open>sem_wait\<close> is at l.295, the hash at l.298,
  the loop at l.301-325. The function returns at six places, each after a
  \<^verbatim>\<open>sem_post\<close> of its own: l.313 and l.320 inside the loop, l.331 (no element),
  l.340 (no key copy), l.350 (no value copy) and l.367, after the new element has been
  filled (l.345-356) and linked (l.359-364).
\<close>

definition hashtable_add_sync ::
  "malloc_results \<Rightarrow> heap \<Rightarrow> hashtable_t \<Rightarrow> cstring \<Rightarrow> ptr \<Rightarrow> nat
    \<Rightarrow> event list \<times> int \<times> heap \<times> hashtable_t" where
  "hashtable_add_sync m h hashtable k e sz =
     (let hash = hashtable_compute_hash hashtable k;
          bucket = table hashtable ! hash;
          tr = [Sem_wait, Table_access, Table_access]
      in case add_loop m (alloc hashtable) h k e sz bucket of
           Some (r, h', bucket') \<Rightarrow>
             (tr @ [Sem_post], r, h', hashtable\<lparr>table := (table hashtable)[hash := bucket']\<rparr>)
         | None \<Rightarrow>
             if \<not> element_ok m then (tr @ [Sem_post], - 1, h, hashtable)
             else if \<not> key_ok m then (tr @ [Sem_post], - 1, h, hashtable)
             else if alloc hashtable \<and> e \<noteq> NULL \<and> sz \<noteq> 0 then
               (if value_p m = NULL then (tr @ [Table_access, Sem_post], - 1, h, hashtable)
                else (tr @ [Table_access, Table_access, Sem_post], 0, memcpy h (value_p m) e sz,
                      hashtable\<lparr>table := (table hashtable)
                                 [hash := bucket @ [\<lparr>key = strdup k, eptr = value_p m\<rparr>]],
                               count := count hashtable + 1\<rparr>))
             else (tr @ [Table_access, Table_access, Sem_post], 0, h,
                   hashtable\<lparr>table := (table hashtable)
                              [hash := bucket @ [\<lparr>key = strdup k, eptr = e\<rparr>]],
                            count := count hashtable + 1\<rparr>))"

text \<open>
  The reading functions and \<^verbatim>\<open>hashtable_remove\<close> have one exit each: the loops leave
  with \<^verbatim>\<open>break\<close>, and \<^verbatim>\<open>sem_post\<close> follows the loop (l.391, l.428, l.472, l.509,
  l.557). \<^verbatim>\<open>hashtable_get_keys\<close> walks the buckets only when the count is positive and
  the array was allocated.
\<close>

definition hashtable_get_count_sync :: "hashtable_t \<Rightarrow> event list \<times> nat" where
  "hashtable_get_count_sync hashtable = ([Sem_wait, Table_access, Sem_post], count hashtable)"

definition hashtable_has_key_sync :: "hashtable_t \<Rightarrow> cstring \<Rightarrow> event list \<times> bool" where
  "hashtable_has_key_sync hashtable k =
     (let hash = hashtable_compute_hash hashtable k
      in ([Sem_wait, Table_access, Table_access, Sem_post],
          has_key_loop k (table hashtable ! hash)))"

definition hashtable_get_keys_sync ::
  "bool \<Rightarrow> hashtable_t \<Rightarrow> keys_var \<Rightarrow> event list \<times> nat \<times> keys_var" where
  "hashtable_get_keys_sync array_ok hashtable keys =
     (let cnt = count hashtable in
      if 0 < cnt then
        (if array_ok
         then ([Sem_wait, Table_access, Table_access, Sem_post], cnt,
               Key_array (fst (fold (\<lambda>hash (ks, index). keys_loop ks index (table hashtable ! hash))
                                 [0..<size_tab hashtable] (replicate cnt None, 0))))
         else ([Sem_wait, Table_access, Sem_post], cnt, Null_keys))
      else ([Sem_wait, Table_access, Sem_post], cnt, keys))"

definition hashtable_lookup_sync :: "hashtable_t \<Rightarrow> cstring \<Rightarrow> event list \<times> ptr" where
  "hashtable_lookup_sync hashtable k =
     (let hash = hashtable_compute_hash hashtable k
      in ([Sem_wait, Table_access, Table_access, Sem_post],
          lookup_loop k (table hashtable ! hash)))"

definition hashtable_remove_sync ::
  "hashtable_t \<Rightarrow> cstring \<Rightarrow> event list \<times> ptr \<times> hashtable_t" where
  "hashtable_remove_sync hashtable k =
     (let hash = hashtable_compute_hash hashtable k in
      case remove_loop k (table hashtable ! hash) of
        Some (e, bucket') \<Rightarrow>
          ([Sem_wait, Table_access, Table_access, Sem_post], e,
           hashtable\<lparr>table := (table hashtable)[hash := bucket']\<rparr>)
      | None \<Rightarrow> ([Sem_wait, Table_access, Table_access, Sem_post], NULL, hashtable))"

subsection \<open>hashtable\_release\<close>

text \<open>
  The inner loop of \<^verbatim>\<open>hashtable_release\<close> frees every element of a chain with its key,
  and the element's value when the table owns it.
\<close>

fun release_loop :: "bool \<Rightarrow> heap \<Rightarrow> chain \<Rightarrow> heap" where
  "release_loop al h [] = h"
| "release_loop al h (cur # rest) =
     release_loop al (if al \<and> eptr cur \<noteq> NULL then free h (eptr cur) else h) rest"

text \<open>
  \<^verbatim>\<open>hashtable_release\<close> does nothing for \<^verbatim>\<open>NULL\<close> (\<open>None\<close>). Otherwise it waits
  (l.573), frees the elements (l.576-587) and the bucket array (l.590), posts (l.593),
  and only then closes the semaphore (l.594) and frees the instance (l.597).
\<close>

definition hashtable_release :: "heap \<Rightarrow> hashtable_t option \<Rightarrow> event list \<times> heap" where
  "hashtable_release h hashtable =
     (case hashtable of
        None \<Rightarrow> ([], h)
      | Some t \<Rightarrow>
          ([Sem_wait, Table_access, Table_access, Sem_post, Sem_close, Free_instance],
           fold (\<lambda>hash h. release_loop (alloc t) h (table t ! hash)) [0..<size_tab t] h))"

subsection \<open>Well-formed tables, call sequences\<close>

text \<open>
  What the functions rely on and keep up. The bucket array has \<^verbatim>\<open>size\<close> slots and
  \<^verbatim>\<open>size\<close> is positive (hashing divides by it). An element sits in the bucket its
  key hashes to, its key is a terminated string without the terminator, and no key
  occurs twice in a chain.
\<close>

definition chain_inv :: "hashtable_t \<Rightarrow> nat \<Rightarrow> chain \<Rightarrow> bool" where
  "chain_inv hashtable hash ch \<longleftrightarrow>
     (\<forall>c \<in> set ch. cstr (key c) = key c \<and> hashtable_compute_hash hashtable (key c) = hash)
     \<and> distinct (map key ch)"

definition hashtable_inv :: "hashtable_t \<Rightarrow> bool" where
  "hashtable_inv hashtable \<longleftrightarrow>
     0 < size_tab hashtable \<and> length (table hashtable) = size_tab hashtable
     \<and> (\<forall>hash \<in> {0..<size_tab hashtable}. chain_inv hashtable hash (table hashtable ! hash))"

text \<open>The number of elements found by walking every bucket's chain.\<close>

definition num_elements :: "hashtable_t \<Rightarrow> nat" where
  "num_elements hashtable =
     (\<Sum>hash\<leftarrow>[0..<size_tab hashtable]. length (table hashtable ! hash))"

text \<open>
  A sequence of \<^verbatim>\<open>hashtable_add\<close> calls, each with the allocator's answers, the key,
  the element pointer and the size. \<open>add_all\<close> runs them in order and is \<open>None\<close> as
  soon as one of them returns -1.
\<close>

type_synonym add_call = "malloc_results \<times> cstring \<times> ptr \<times> nat"

fun add_all :: "heap \<Rightarrow> hashtable_t \<Rightarrow> add_call list \<Rightarrow> (heap \<times> hashtable_t) option" where
  "add_all h hashtable [] = Some (h, hashtable)"
| "add_all h hashtable ((m, k, e, sz) # calls) =
     (case hashtable_add m h hashtable k e sz of
        (r, h', hashtable') \<Rightarrow> if r = 0 then add_all h' hashtable' calls else None)"

definition call_key :: "add_call \<Rightarrow> cstring" where
  "call_key c = cstr (fst (snd c))"

text \<open>
  Insertion order: the elements of a list in the order of their first occurrence.
\<close>

definition first_occurrences :: "'a list \<Rightarrow> 'a list" where
  "first_occurrences xs = rev (remdups (rev xs))"

text \<open>
  A table that holds the keys of a sequence of insertions: each chain has the keys that
  hash to its bucket, in the order of their first insertion, and the count is the
  number of elements.
\<close>

definition holds_keys :: "cstring list \<Rightarrow> hashtable_t \<Rightarrow> bool" where
  "holds_keys ks hashtable \<longleftrightarrow>
     0 < size_tab hashtable \<and> length (table hashtable) = size_tab hashtable
     \<and> count hashtable = num_elements hashtable
     \<and> (\<forall>k \<in> set ks. cstr k = k)
     \<and> (\<forall>hash \<in> {0..<size_tab hashtable}.
           map key (table hashtable ! hash)
             = first_occurrences (filter (\<lambda>k. hashtable_compute_hash hashtable k = hash) ks))"

subsection \<open>The scenario of the specification\<close>

text \<open>
  \<^verbatim>\<open>create(64, false)\<close>, then \<^verbatim>\<open>"key1"\<close>, \<^verbatim>\<open>"key2"\<close> and \<^verbatim>\<open>"key3"\<close> are added
  with the elements at addresses 100, 200 and 300 (the example program's string
  literals). No call needs a copy, so the allocator is asked for the element and the
  key only.
\<close>

definition key1 :: cstring where
  "key1 = [107, 101, 121, 49]"

definition key2 :: cstring where
  "key2 = [107, 101, 121, 50]"

definition key3 :: cstring where
  "key3 = [107, 101, 121, 51]"

definition no_copy :: malloc_results where
  "no_copy = \<lparr>element_ok = True, key_ok = True, value_p = NULL\<rparr>"

definition scenario_table :: hashtable_t where
  "scenario_table =
     snd (the (add_all Map.empty (the (hashtable_create True True 64 False))
            [(no_copy, key1, 100, 8), (no_copy, key2, 200, 8), (no_copy, key3, 300, 8)]))"

section \<open>Properties\<close>

subsection \<open>Strings and hashing\<close>

lemma cstr_Nil [simp]: "cstr [] = []"
  by (simp add: cstr_def)

lemma cstr_Cons [simp]: "cstr (b # s) = (if b = 0 then [] else b # cstr s)"
  by (simp add: cstr_def)

lemma cstr_idem [simp]: "cstr (cstr s) = cstr s"
  by (induction s) simp_all

lemma strcmp_eq_0_iff: "strcmp a b = 0 \<longleftrightarrow> cstr a = cstr b"
proof (induction a b rule: strcmp.induct)
  case (1 x xs y ys)
  then show ?case by (simp add: uint_0_iff word_uint_eq_iff [symmetric])
next
  case (2 x xs)
  show ?case by (simp add: uint_0_iff)
next
  case (3 y ys)
  show ?case by (auto simp: uint_0_iff)
next
  case 4
  show ?case by simp
qed

lemma char_to_int_eq_0_iff: "char_to_int char_signed b = 0 \<longleftrightarrow> b = 0"
  by (simp add: char_to_int_def signed_eq_0_iff uint_0_iff)

text \<open>A byte below 128 converts to the same \<^verbatim>\<open>int\<close> whether \<^verbatim>\<open>char\<close> is signed or not.\<close>

lemma char_to_int_ascii: "b < 128 \<Longrightarrow> char_to_int char_signed b = uint b"
proof -
  assume "b < 128"
  then have "uint b < 128" by (simp add: word_less_def)
  moreover have "- 128 \<le> uint b"
    using uint_ge_0 [of b] by linarith
  ultimately have "signed_take_bit 7 (uint b) = uint b"
    using signed_take_bit_int_eq_self [of 7 "uint b"] by simp
  then show ?thesis by (simp add: char_to_int_def sint_uint)
qed

lemma djb2_loop_fold:
  "djb2_loop char_signed hash k =
     fold (\<lambda>c hash. hash * 33 + word_of_int (char_to_int char_signed c)) (cstr k) hash"
proof (induction k arbitrary: hash)
  case Nil
  show ?case by simp
next
  case (Cons b k)
  show ?case
    by (simp add: char_to_int_eq_0_iff Cons.IH push_bit_eq_mult algebra_simps)
qed

lemma sint_byte: "sint (b :: byte) = (if b < 128 then uint b else uint b - 256)"
proof (cases "b < 128")
  case True
  then show ?thesis using char_to_int_ascii [of b True] by (simp add: char_to_int_def)
next
  case False
  then have ge: "128 \<le> uint b" by (simp add: word_less_def not_less)
  have lt: "uint b < 256" using uint_lt2p [of b] by simp
  have "uint b + 128 = (uint b - 128) + 256" by simp
  then have "(uint b + 128) mod 256 = (uint b - 128 + 256) mod 256" by (rule arg_cong)
  also have "\<dots> = (uint b - 128) mod 256" by (rule mod_add_self2)
  also have "\<dots> = uint b - 128" using ge lt by (intro mod_pos_pos_trivial) simp_all
  finally have "(uint b + 128) mod 256 = uint b - 128" .
  then have "signed_take_bit 7 (uint b) = uint b - 256"
    by (simp add: signed_take_bit_eq_take_bit_shift take_bit_eq_mod)
  with False show ?thesis by (simp add: sint_uint)
qed

lemma char_to_word:
  "(word_of_int (char_to_int char_signed b) :: 'a::len word)
     = (if char_signed \<and> 128 \<le> b then ucast b - 256 else ucast b)"
proof (cases "b < 128")
  case True
  then have "\<not> 128 \<le> b" by (simp only: not_le)
  then have "(if char_signed \<and> 128 \<le> b then ucast b - 256 else ucast b) = (ucast b :: 'a word)"
    by (simp only: simp_thms if_False)
  moreover have "(word_of_int (char_to_int char_signed b) :: 'a word) = ucast b"
    using char_to_int_ascii [OF True, of char_signed] by (simp only: ucast_eq)
  ultimately show ?thesis by (simp only:)
next
  case False
  then have ge: "128 \<le> b" by (simp only: not_less)
  have "(word_of_int (char_to_int char_signed b) :: 'a word)
      = (if char_signed then word_of_int (uint b - 256) else word_of_int (uint b))"
    using False by (cases char_signed) (simp_all only: char_to_int_def sint_byte if_False if_True)
  also have "\<dots> = (if char_signed then ucast b - 256 else ucast b)"
    by (cases char_signed) (simp_all only: ucast_eq wi_hom_sub if_True if_False, simp)
  finally show ?thesis using ge by (simp only: simp_thms)
qed

lemma djb2_fold_explicit:
  "fold (\<lambda>c hash. hash * 33 + word_of_int (char_to_int char_signed c)) k (h :: 'a::len word)
     = fold (\<lambda>c hash. hash * 33 + (if char_signed \<and> 128 \<le> c then ucast c - 256 else ucast c)) k h"
  by (simp only: char_to_word)

text \<open>
  C6 as stated fails where plain \<^verbatim>\<open>char\<close> is signed: for the one-byte key 0xFF in a
  table of 1000 buckets the function returns 572, while \<open>5381 * 33 + 255\<close>, the
  formula with the value of the byte, gives 828 modulo 1000.
\<close>

theorem hashtable_compute_hash_high_byte:
  "hashtable_compute_hash (the (hashtable_create True True 1000 False)) [255] = 572
   \<and> unat ((5381 :: 64 word) * 33 + 255) mod 1000 = 828"
  by (simp add: hashtable_compute_hash_def hashtable_create_def djb2_def char_to_int_def)

text \<open>
  C6, amended. With at least one bucket, the bucket index of a key is its djb2 hash
  modulo the bucket count, and so below the bucket count. The hash starts from 5381
  and takes \<open>hash * 33 + c\<close> for each character before the terminator, in wrapping
  \<^verbatim>\<open>unsigned long\<close> arithmetic, where \<open>c\<close> is the \<^verbatim>\<open>char\<close> converted to \<^verbatim>\<open>int\<close>: the
  value of the byte, less 256 for a byte from 0x80 on where plain \<^verbatim>\<open>char\<close> is signed
  (as it is for the table functions here). The loop computes this at any width of
  \<^verbatim>\<open>unsigned long\<close>.
\<close>

theorem hashtable_compute_hash_djb2:
  assumes "1 \<le> size_tab hashtable"
  shows "hashtable_compute_hash hashtable k =
           unat (fold (\<lambda>c hash. hash * 33 + (if 128 \<le> c then ucast c - 256 else ucast c))
                   (cstr k) (5381 :: 64 word)) mod size_tab hashtable
         \<and> hashtable_compute_hash hashtable k < size_tab hashtable
         \<and> (djb2 char_signed k :: 'a::len word) =
             fold (\<lambda>c hash. hash * 33
                     + (if char_signed \<and> 128 \<le> c then ucast c - 256 else ucast c))
               (cstr k) 5381"
  using assms djb2_fold_explicit [of True "cstr k" "5381 :: 64 word"]
  by (simp add: hashtable_compute_hash_def djb2_def djb2_loop_fold djb2_fold_explicit)

theorem hashtable_compute_hash_djb2_witness:
  "1 \<le> size_tab \<lparr>table = replicate 1000 [], size_tab = 1000, count = 0, alloc = False\<rparr>
   \<and> hashtable_compute_hash
        \<lparr>table = replicate 1000 [], size_tab = 1000, count = 0, alloc = False\<rparr>
        [107, 255, 121] = 608
   \<and> (djb2 True [107, 255, 121] :: 32 word) = 193493608
   \<and> (djb2 False [107, 255, 121] :: 32 word) = 193502056"
  using hashtable_compute_hash_djb2
    [of "\<lparr>table = replicate 1000 [], size_tab = 1000, count = 0, alloc = False\<rparr>"
        "[107, 255, 121]" True, where 'a = 32]
    hashtable_compute_hash_djb2
    [of "\<lparr>table = replicate 1000 [], size_tab = 1000, count = 0, alloc = False\<rparr>"
        "[107, 255, 121]" False, where 'a = 32]
  by simp

subsection \<open>Chains\<close>

lemma has_key_loop_iff:
  "has_key_loop k ch \<longleftrightarrow> cstr k \<in> (\<lambda>c. cstr (key c)) ` set ch"
  by (induction ch) (auto simp: strcmp_eq_0_iff)

lemma lookup_loop_absent: "\<not> has_key_loop k ch \<Longrightarrow> lookup_loop k ch = 0"
  by (induction ch) (auto split: if_splits)

lemma add_loop_None_iff:
  "add_loop m al h k e sz ch = None \<longleftrightarrow> \<not> has_key_loop k ch"
  by (induction ch) (auto split: option.splits prod.splits)

lemma add_loop_keys:
  "add_loop m al h k e sz ch = Some (r, h', ch') \<Longrightarrow> map key ch' = map key ch"
  by (induction ch arbitrary: ch')
     (auto simp: add_found_def Let_def split: option.splits prod.splits if_splits)

lemma add_loop_lookup_same:
  "add_loop m al h k e sz ch = Some (0, h', ch') \<Longrightarrow>
     lookup_loop k ch' = (if al \<and> e \<noteq> 0 \<and> sz \<noteq> 0 then value_p m else e)"
  by (induction ch arbitrary: ch')
     (auto simp: add_found_def Let_def split: option.splits prod.splits if_splits)

lemma add_loop_lookup_other:
  "cstr k \<noteq> cstr k2 \<Longrightarrow> add_loop m al h k e sz ch = Some (r, h', ch') \<Longrightarrow>
     lookup_loop k2 ch' = lookup_loop k2 ch"
  by (induction ch arbitrary: ch')
     (auto simp: add_found_def Let_def strcmp_eq_0_iff split: option.splits prod.splits if_splits)

lemma has_key_loop_iff_keys:
  "has_key_loop k ch \<longleftrightarrow> cstr k \<in> cstr ` set (map key ch)"
  by (induction ch) (auto simp: strcmp_eq_0_iff)

lemma has_key_loop_cong: "map key ch' = map key ch \<Longrightarrow> has_key_loop k ch' = has_key_loop k ch"
  by (simp only: has_key_loop_iff_keys)

lemma lookup_loop_append_other:
  "cstr k \<noteq> cstr k2 \<Longrightarrow> lookup_loop k2 (ch @ [\<lparr>key = strdup k, eptr = x\<rparr>]) = lookup_loop k2 ch"
  by (induction ch) (auto simp: strcmp_eq_0_iff strdup_def)

lemma has_key_loop_append_other:
  "cstr k \<noteq> cstr k2 \<Longrightarrow> has_key_loop k2 (ch @ [\<lparr>key = strdup k, eptr = x\<rparr>]) = has_key_loop k2 ch"
  by (induction ch) (auto simp: strcmp_eq_0_iff strdup_def)

lemma lookup_loop_append_same:
  "\<not> has_key_loop k ch \<Longrightarrow> lookup_loop k (ch @ [\<lparr>key = strdup k, eptr = x\<rparr>]) = x"
  by (induction ch) (auto simp: strcmp_eq_0_iff strdup_def split: if_splits)

lemma remove_loop_None_iff: "remove_loop k ch = None \<longleftrightarrow> \<not> has_key_loop k ch"
  by (induction ch) (auto split: option.splits)

lemma remove_loop_value:
  "remove_loop k ch = Some (v, ch') \<Longrightarrow> v = lookup_loop k ch"
  by (induction ch arbitrary: ch') (auto split: option.splits if_splits)

lemma remove_loop_length:
  "remove_loop k ch = Some (v, ch') \<Longrightarrow> length ch = Suc (length ch')"
  by (induction ch arbitrary: ch') (auto split: option.splits if_splits)

lemma remove_loop_subset:
  "remove_loop k ch = Some (v, ch') \<Longrightarrow> set ch' \<subseteq> set ch"
  by (induction ch arbitrary: ch') (auto split: option.splits if_splits)

lemma remove_loop_other:
  "cstr k \<noteq> cstr k2 \<Longrightarrow> remove_loop k ch = Some (v, ch') \<Longrightarrow>
     lookup_loop k2 ch' = lookup_loop k2 ch \<and> has_key_loop k2 ch' = has_key_loop k2 ch"
  by (induction ch arbitrary: ch') (auto simp: strcmp_eq_0_iff split: option.splits if_splits)

lemma remove_loop_distinct:
  "remove_loop k ch = Some (v, ch') \<Longrightarrow> distinct (map (\<lambda>c. cstr (key c)) ch) \<Longrightarrow>
     distinct (map (\<lambda>c. cstr (key c)) ch')"
proof (induction ch arbitrary: ch')
  case Nil
  then show ?case by simp
next
  case (Cons c ch)
  show ?case
  proof (cases "strcmp (key c) k = 0")
    case True
    with Cons.prems show ?thesis by simp
  next
    case False
    with Cons.prems obtain rest' where r: "remove_loop k ch = Some (v, rest')" and c: "ch' = c # rest'"
      by (auto split: option.splits)
    from Cons.IH [OF r] Cons.prems(2) have "distinct (map (\<lambda>c. cstr (key c)) rest')" by simp
    moreover from remove_loop_subset [OF r] Cons.prems(2)
    have "cstr (key c) \<notin> (\<lambda>c. cstr (key c)) ` set rest'" by auto
    ultimately show ?thesis using c by simp
  qed
qed

lemma remove_loop_gone:
  "remove_loop k ch = Some (v, ch') \<Longrightarrow> distinct (map (\<lambda>c. cstr (key c)) ch) \<Longrightarrow>
     \<not> has_key_loop k ch'"
proof (induction ch arbitrary: ch')
  case Nil
  then show ?case by simp
next
  case (Cons c ch)
  show ?case
  proof (cases "strcmp (key c) k = 0")
    case True
    with Cons.prems show ?thesis
      by (auto simp: has_key_loop_iff strcmp_eq_0_iff)
  next
    case False
    with Cons.prems obtain rest' where r: "remove_loop k ch = Some (v, rest')" and c: "ch' = c # rest'"
      by (auto split: option.splits)
    from Cons.IH [OF r] Cons.prems(2) have "\<not> has_key_loop k rest'" by simp
    with False c show ?thesis by simp
  qed
qed

subsection \<open>Tables\<close>

lemma hashtable_compute_hash_cstr [simp]:
  "hashtable_compute_hash t (cstr k) = hashtable_compute_hash t k"
  by (simp add: hashtable_compute_hash_def djb2_def djb2_loop_fold)

lemma hashtable_compute_hash_cong:
  "cstr k1 = cstr k2 \<Longrightarrow> hashtable_compute_hash t k1 = hashtable_compute_hash t k2"
  by (metis hashtable_compute_hash_cstr)

lemma hashtable_compute_hash_less:
  "0 < size_tab t \<Longrightarrow> hashtable_compute_hash t k < size_tab t"
  by (simp add: hashtable_compute_hash_def)

lemma hashtable_compute_hash_table_update [simp]:
  "hashtable_compute_hash (t\<lparr>table := tb\<rparr>) k = hashtable_compute_hash t k"
  "hashtable_compute_hash (t\<lparr>count := n\<rparr>) k = hashtable_compute_hash t k"
  by (simp_all add: hashtable_compute_hash_def)

lemma nth_list_update_full:
  "xs[i := v] ! j = (if i = j \<and> i < length xs then v else xs ! j)"
  by (cases "i < length xs") (auto simp: nth_list_update list_update_beyond)

lemma hashtable_add_frame:
  assumes "cstr k1 \<noteq> cstr k2"
  shows "hashtable_lookup (snd (snd (hashtable_add m h t k1 e sz))) k2 = hashtable_lookup t k2"
    and "hashtable_has_key (snd (snd (hashtable_add m h t k1 e sz))) k2 = hashtable_has_key t k2"
  using assms
  by (auto simp: hashtable_add_def hashtable_lookup_def hashtable_has_key_def Let_def
      nth_list_update_full add_loop_lookup_other lookup_loop_append_other
      has_key_loop_append_other
      dest: add_loop_keys has_key_loop_cong split: option.splits)

lemma hashtable_remove_frame:
  assumes "cstr k1 \<noteq> cstr k2"
  shows "hashtable_lookup (snd (hashtable_remove t k1)) k2 = hashtable_lookup t k2"
    and "hashtable_has_key (snd (hashtable_remove t k1)) k2 = hashtable_has_key t k2"
  using assms
  by (auto simp: hashtable_remove_def hashtable_lookup_def hashtable_has_key_def Let_def
      nth_list_update_full remove_loop_other split: option.splits)

lemma add_loop_filter_other:
  "add_loop m al h k e sz ch = Some (r, h', ch') \<Longrightarrow>
     filter (\<lambda>c. cstr (key c) \<noteq> cstr k) ch' = filter (\<lambda>c. cstr (key c) \<noteq> cstr k) ch"
  by (induction ch arbitrary: ch')
     (auto simp: add_found_def Let_def strcmp_eq_0_iff split: option.splits prod.splits if_splits)

lemma remove_loop_filter_other:
  "remove_loop k ch = Some (v, ch') \<Longrightarrow>
     filter (\<lambda>c. cstr (key c) \<noteq> cstr k) ch' = filter (\<lambda>c. cstr (key c) \<noteq> cstr k) ch"
  by (induction ch arbitrary: ch') (auto simp: strcmp_eq_0_iff split: option.splits if_splits)

lemma map_list_update_same:
  "f v = f (xs ! i) \<Longrightarrow> map f (xs[i := v]) = map f xs"
  by (cases "i < length xs") (simp_all add: map_update list_update_beyond list_update_same_conv)

lemma hashtable_add_others:
  "map (filter (\<lambda>c. cstr (key c) \<noteq> cstr k)) (table (snd (snd (hashtable_add m h t k e sz))))
     = map (filter (\<lambda>c. cstr (key c) \<noteq> cstr k)) (table t)"
  by (auto simp: hashtable_add_def Let_def strdup_def add_loop_filter_other
      intro!: map_list_update_same split: option.splits)

lemma hashtable_remove_others:
  "map (filter (\<lambda>c. cstr (key c) \<noteq> cstr k)) (table (snd (hashtable_remove t k)))
     = map (filter (\<lambda>c. cstr (key c) \<noteq> cstr k)) (table t)"
  by (auto simp: hashtable_remove_def Let_def remove_loop_filter_other
      intro!: map_list_update_same split: option.splits)

text \<open>
  C7. On a table with at least one bucket and a bucket array of that length, removing
  a key that is not in the table returns \<^verbatim>\<open>NULL\<close> and leaves the table as it was:
  the count, every bucket chain and every stored element pointer.
\<close>

theorem hashtable_remove_absent_unchanged:
  assumes "0 < size_tab hashtable"
    and "length (table hashtable) = size_tab hashtable"
    and "\<not> hashtable_has_key hashtable k"
  shows "hashtable_remove hashtable k = (NULL, hashtable)"
  using assms(3)
  by (simp add: hashtable_has_key_def hashtable_remove_def Let_def remove_loop_None_iff [symmetric])

text \<open>
  The absent key \<^verbatim>\<open>"c"\<close> hashes to the bucket of the stored key \<^verbatim>\<open>"a"\<close>, so the loop
  compares it with that element before it runs off the chain.
\<close>

theorem hashtable_remove_absent_unchanged_witness:
  "0 < size_tab \<lparr>table = [[\<lparr>key = [97], eptr = 7\<rparr>], [\<lparr>key = [98], eptr = 8\<rparr>]],
                 size_tab = 2, count = 2, alloc = False\<rparr>
   \<and> length (table \<lparr>table = [[\<lparr>key = [97], eptr = 7\<rparr>], [\<lparr>key = [98], eptr = 8\<rparr>]],
                     size_tab = 2, count = 2, alloc = False\<rparr>) = 2
   \<and> hashtable_compute_hash
         \<lparr>table = [[\<lparr>key = [97], eptr = 7\<rparr>], [\<lparr>key = [98], eptr = 8\<rparr>]],
           size_tab = 2, count = 2, alloc = False\<rparr> [99]
       = hashtable_compute_hash
         \<lparr>table = [[\<lparr>key = [97], eptr = 7\<rparr>], [\<lparr>key = [98], eptr = 8\<rparr>]],
           size_tab = 2, count = 2, alloc = False\<rparr> [97]
   \<and> \<not> hashtable_has_key
         \<lparr>table = [[\<lparr>key = [97], eptr = 7\<rparr>], [\<lparr>key = [98], eptr = 8\<rparr>]],
           size_tab = 2, count = 2, alloc = False\<rparr> [99]
   \<and> hashtable_remove
         \<lparr>table = [[\<lparr>key = [97], eptr = 7\<rparr>], [\<lparr>key = [98], eptr = 8\<rparr>]],
           size_tab = 2, count = 2, alloc = False\<rparr> [99]
       = (NULL, \<lparr>table = [[\<lparr>key = [97], eptr = 7\<rparr>], [\<lparr>key = [98], eptr = 8\<rparr>]],
                  size_tab = 2, count = 2, alloc = False\<rparr>)"
proof -
  let ?tab = "\<lparr>table = [[\<lparr>key = [97], eptr = 7\<rparr>], [\<lparr>key = [98], eptr = 8\<rparr>]],
               size_tab = 2, count = 2, alloc = False\<rparr>"
  have pos: "0 < size_tab ?tab" by simp
  have len: "length (table ?tab) = size_tab ?tab" by simp
  have hash: "hashtable_compute_hash ?tab [99] = 0" "hashtable_compute_hash ?tab [97] = 0"
    by (simp_all add: hashtable_compute_hash_def djb2_def char_to_int_def)
  have absent: "\<not> hashtable_has_key ?tab [99]"
    by (simp add: hashtable_has_key_def hash)
  from hashtable_remove_absent_unchanged [OF pos len absent] absent hash
  show ?thesis by simp
qed

text \<open>
  C10. On a table with at least one bucket and a bucket array of that length, for
  keys \<open>k1\<close> and \<open>k2\<close> with different contents, neither
  \<^verbatim>\<open>hashtable_add\<close> on \<open>k1\<close> (whatever the allocator answers, so successful or
  failing) nor \<^verbatim>\<open>hashtable_remove\<close> on \<open>k1\<close> changes what \<^verbatim>\<open>hashtable_lookup\<close>
  and \<^verbatim>\<open>hashtable_has_key\<close> return for \<open>k2\<close>; the elements whose key differs from
  \<open>k1\<close> stay as they are, in their buckets and in their order.
\<close>

theorem hashtable_add_remove_frame:
  assumes "0 < size_tab hashtable"
    and "length (table hashtable) = size_tab hashtable"
    and "cstr k1 \<noteq> cstr k2"
  shows "hashtable_lookup (snd (snd (hashtable_add m h hashtable k1 e sz))) k2
           = hashtable_lookup hashtable k2
       \<and> hashtable_has_key (snd (snd (hashtable_add m h hashtable k1 e sz))) k2
           = hashtable_has_key hashtable k2
       \<and> hashtable_lookup (snd (hashtable_remove hashtable k1)) k2 = hashtable_lookup hashtable k2
       \<and> hashtable_has_key (snd (hashtable_remove hashtable k1)) k2 = hashtable_has_key hashtable k2
       \<and> map (filter (\<lambda>c. cstr (key c) \<noteq> cstr k1))
             (table (snd (snd (hashtable_add m h hashtable k1 e sz))))
           = map (filter (\<lambda>c. cstr (key c) \<noteq> cstr k1)) (table hashtable)
       \<and> map (filter (\<lambda>c. cstr (key c) \<noteq> cstr k1)) (table (snd (hashtable_remove hashtable k1)))
           = map (filter (\<lambda>c. cstr (key c) \<noteq> cstr k1)) (table hashtable)"
  using assms(3)
  by (simp add: hashtable_add_frame hashtable_remove_frame hashtable_add_others
      hashtable_remove_others)

theorem hashtable_add_remove_frame_witness:
  "0 < size_tab \<lparr>table = [[\<lparr>key = [97], eptr = 30\<rparr>, \<lparr>key = [99], eptr = 9\<rparr>], []],
         size_tab = 2, count = 2, alloc = True\<rparr>
   \<and> length (table \<lparr>table = [[\<lparr>key = [97], eptr = 30\<rparr>, \<lparr>key = [99], eptr = 9\<rparr>], []],
         size_tab = 2, count = 2, alloc = True\<rparr>) = 2
   \<and> cstr [97] \<noteq> cstr [99]
   \<and> hashtable_lookup
        \<lparr>table = [[\<lparr>key = [97], eptr = 30\<rparr>, \<lparr>key = [99], eptr = 9\<rparr>], []],
         size_tab = 2, count = 2, alloc = True\<rparr> [99] = 9
   \<and> hashtable_lookup (snd (snd (hashtable_add
        \<lparr>element_ok = True, key_ok = True, value_p = 40\<rparr> [30 \<mapsto> [1, 2], 9 \<mapsto> [3], 20 \<mapsto> [5, 6]]
        \<lparr>table = [[\<lparr>key = [97], eptr = 30\<rparr>, \<lparr>key = [99], eptr = 9\<rparr>], []],
         size_tab = 2, count = 2, alloc = True\<rparr> [97] 20 2))) [99] = 9
   \<and> hashtable_lookup (snd (hashtable_remove
        \<lparr>table = [[\<lparr>key = [97], eptr = 30\<rparr>, \<lparr>key = [99], eptr = 9\<rparr>], []],
         size_tab = 2, count = 2, alloc = True\<rparr> [97])) [99] = 9"
proof -
  have ne: "cstr [97] \<noteq> cstr [99 :: byte]" by simp
  have lk: "hashtable_lookup
        \<lparr>table = [[\<lparr>key = [97], eptr = 30\<rparr>, \<lparr>key = [99], eptr = 9\<rparr>], []],
         size_tab = 2, count = 2, alloc = True\<rparr> [99] = 9"
    by (simp add: hashtable_lookup_def hashtable_compute_hash_def djb2_def char_to_int_def)
  have pos: "0 < size_tab \<lparr>table = [[\<lparr>key = [97], eptr = 30\<rparr>, \<lparr>key = [99], eptr = 9\<rparr>], []],
         size_tab = 2, count = 2, alloc = True\<rparr>" by simp
  have len: "length (table \<lparr>table = [[\<lparr>key = [97], eptr = 30\<rparr>, \<lparr>key = [99], eptr = 9\<rparr>], []],
         size_tab = 2, count = 2, alloc = True\<rparr>)
      = size_tab \<lparr>table = [[\<lparr>key = [97], eptr = 30\<rparr>, \<lparr>key = [99], eptr = 9\<rparr>], []],
         size_tab = 2, count = 2, alloc = True\<rparr>" by simp
  from ne lk hashtable_add_remove_frame [OF pos len ne,
      where m = "\<lparr>element_ok = True, key_ok = True, value_p = 40\<rparr>"
        and h = "[30 \<mapsto> [1, 2], 9 \<mapsto> [3], 20 \<mapsto> [5, 6]]" and e = 20 and sz = 2]
  show ?thesis by simp
qed

lemma chain_inv_keys:
  "chain_inv t i ch \<longleftrightarrow>
     (\<forall>k \<in> set (map key ch). cstr k = k \<and> hashtable_compute_hash t k = i) \<and> distinct (map key ch)"
  by (auto simp: chain_inv_def)

lemma chain_inv_cong:
  "map key ch' = map key ch \<Longrightarrow> size_tab t' = size_tab t \<Longrightarrow> chain_inv t' i ch' = chain_inv t i ch"
  by (simp add: chain_inv_keys hashtable_compute_hash_def)

lemma chain_inv_cstr_keys:
  "chain_inv t i ch \<Longrightarrow> map (\<lambda>c. cstr (key c)) ch = map key ch"
  by (simp add: chain_inv_def)

lemma chain_inv_has_key:
  "chain_inv t i ch \<Longrightarrow> has_key_loop k ch \<longleftrightarrow> cstr k \<in> set (map key ch)"
  by (auto simp: has_key_loop_iff chain_inv_def)

lemma chain_inv_Nil [simp]: "chain_inv t i []"
  by (simp add: chain_inv_def)

lemma chain_inv_append:
  "chain_inv t (hashtable_compute_hash t k) ch \<Longrightarrow> \<not> has_key_loop k ch \<Longrightarrow>
     chain_inv t (hashtable_compute_hash t k) (ch @ [\<lparr>key = strdup k, eptr = x\<rparr>])"
  by (auto simp: chain_inv_has_key) (auto simp: chain_inv_def strdup_def)

lemma chain_inv_remove:
  assumes "chain_inv t i ch" "remove_loop k ch = Some (v, ch')"
  shows "chain_inv t i ch'"
proof -
  from assms(1) have "distinct (map (\<lambda>c. cstr (key c)) ch)"
    by (simp add: chain_inv_cstr_keys) (simp add: chain_inv_def)
  from remove_loop_distinct [OF assms(2) this] have d: "distinct (map (\<lambda>c. cstr (key c)) ch')" .
  from remove_loop_subset [OF assms(2)] assms(1)
  have a: "\<forall>c \<in> set ch'. cstr (key c) = key c \<and> hashtable_compute_hash t (key c) = i"
    by (auto simp: chain_inv_def)
  then have "map (\<lambda>c. cstr (key c)) ch' = map key ch'" by simp
  with d a show ?thesis by (simp add: chain_inv_def)
qed

lemma hashtable_inv_I:
  "0 < size_tab t \<Longrightarrow> length (table t) = size_tab t \<Longrightarrow>
   (\<And>i. i < size_tab t \<Longrightarrow> chain_inv t i (table t ! i)) \<Longrightarrow> hashtable_inv t"
  by (simp add: hashtable_inv_def)

lemma hashtable_inv_D:
  assumes "hashtable_inv t"
  shows "0 < size_tab t" "length (table t) = size_tab t"
    "i < size_tab t \<Longrightarrow> chain_inv t i (table t ! i)"
    "hashtable_compute_hash t k < length (table t)"
    "chain_inv t (hashtable_compute_hash t k) (table t ! hashtable_compute_hash t k)"
  using assms by (simp_all add: hashtable_inv_def hashtable_compute_hash_less)

lemma size_t_mult_exact: "sz * 8 < 2 ^ 64 \<Longrightarrow> size_t_mult sz 8 div 8 = sz"
  by (simp add: size_t_mult_def)

lemma hashtable_create_inv:
  "hashtable_create a b sz al = Some t \<Longrightarrow> 0 < sz \<Longrightarrow> sz * 8 < 2 ^ 64 \<Longrightarrow> hashtable_inv t"
  by (auto simp: hashtable_create_def hashtable_inv_def size_t_mult_exact split: if_splits)

lemma hashtable_inv_update:
  assumes "hashtable_inv t" "chain_inv t j ch" 
  shows "hashtable_inv (t\<lparr>table := (table t)[j := ch]\<rparr>)"
    and "hashtable_inv (t\<lparr>table := (table t)[j := ch], count := n\<rparr>)"
proof -
  have c: "\<And>i b. chain_inv (t\<lparr>table := b\<rparr>) i = chain_inv t i"
     "\<And>i b n. chain_inv (t\<lparr>table := b, count := n\<rparr>) i = chain_inv t i"
    by (simp_all add: chain_inv_def fun_eq_iff)
  from assms show "hashtable_inv (t\<lparr>table := (table t)[j := ch]\<rparr>)"
    by (auto simp: hashtable_inv_def c nth_list_update_full)
  from assms show "hashtable_inv (t\<lparr>table := (table t)[j := ch], count := n\<rparr>)"
    by (auto simp: hashtable_inv_def c nth_list_update_full)
qed

lemma hashtable_add_inv:
  assumes "hashtable_inv t"
  shows "hashtable_inv (snd (snd (hashtable_add m h t k e sz)))"
proof (cases "add_loop m (alloc t) h k e sz (table t ! hashtable_compute_hash t k)")
  case None
  then have "\<not> has_key_loop k (table t ! hashtable_compute_hash t k)"
    by (simp add: add_loop_None_iff)
  from chain_inv_append [OF hashtable_inv_D(5) [OF assms] this]
  show ?thesis using None assms
    by (simp add: hashtable_add_def Let_def hashtable_inv_update)
next
  case (Some res)
  obtain r h' ch' where res: "res = (r, h', ch')" by (cases res)
  from Some res have "map key ch' = map key (table t ! hashtable_compute_hash t k)"
    using add_loop_keys by blast
  then have "chain_inv t (hashtable_compute_hash t k) ch'"
    using hashtable_inv_D(5) [OF assms, of k] chain_inv_cong by blast
  then show ?thesis using Some res assms
    by (simp add: hashtable_add_def Let_def hashtable_inv_update)
qed

lemma hashtable_remove_inv:
  assumes "hashtable_inv t"
  shows "hashtable_inv (snd (hashtable_remove t k))"
proof (cases "remove_loop k (table t ! hashtable_compute_hash t k)")
  case None
  then show ?thesis using assms by (simp add: hashtable_remove_def)
next
  case (Some res)
  obtain v ch' where res: "res = (v, ch')" by (cases res)
  from chain_inv_remove [OF hashtable_inv_D(5) [OF assms]] Some res
  have "chain_inv t (hashtable_compute_hash t k) ch'" by blast
  then show ?thesis using Some res assms
    by (simp add: hashtable_remove_def Let_def hashtable_inv_update)
qed

lemma num_elements_sum:
  "length (table t) = size_tab t \<Longrightarrow> num_elements t = sum_list (map length (table t))"
proof -
  assume l: "length (table t) = size_tab t"
  have "map (\<lambda>hash. length (table t ! hash)) [0..<length (table t)]
      = map length (map ((!) (table t)) [0..<length (table t)])"
    by (simp only: map_map comp_def)
  also have "\<dots> = map length (table t)"
    by (simp only: map_nth)
  finally show ?thesis using l by (simp add: num_elements_def)
qed

lemma add_loop_heap:
  "add_loop m al h k e sz ch = Some (r, h', ch') \<Longrightarrow>
     h' = (let h1 = (if al \<and> lookup_loop k ch \<noteq> 0 then free h (lookup_loop k ch) else h)
           in if al \<and> e \<noteq> 0 \<and> sz \<noteq> 0 \<and> value_p m \<noteq> 0
              then memcpy h1 (value_p m) e sz else h1)"
  by (induction ch arbitrary: ch')
     (auto simp: add_found_def Let_def split: option.splits prod.splits if_splits)

lemma add_loop_result:
  "add_loop m al h k e sz ch = Some (r, h', ch') \<Longrightarrow>
     r = (if al \<and> e \<noteq> 0 \<and> sz \<noteq> 0 \<and> value_p m = 0 then - 1 else 0)"
  by (induction ch arbitrary: ch')
     (auto simp: add_found_def Let_def split: option.splits prod.splits if_splits)

lemma add_loop_lookup_failed:
  "add_loop m al h k e sz ch = Some (r, h', ch') \<Longrightarrow> r \<noteq> 0 \<Longrightarrow> lookup_loop k ch' = 0"
  by (induction ch arbitrary: ch')
     (auto simp: add_found_def Let_def split: option.splits prod.splits if_splits)

text \<open>
  C4. A successful \<^verbatim>\<open>hashtable_add\<close> with a key that is already in the table
  updates the existing element in place: every chain holds the same keys at the same
  positions as before (no element is created), \<^verbatim>\<open>count\<close> and the number of elements
  are unchanged, and \<^verbatim>\<open>hashtable_lookup\<close> for the key returns the new element: the
  caller's pointer, or the address of the fresh copy when the table copies. The memory
  is the old one without the previous copy (when the table owns it) and with the new copy.
\<close>

theorem hashtable_add_existing_key:
  assumes "hashtable_inv hashtable"
    and "hashtable_has_key hashtable k"
    and "hashtable_add m h hashtable k e sz = (0, h', hashtable')"
  shows "count hashtable' = count hashtable
       \<and> map (map key) (table hashtable') = map (map key) (table hashtable)
       \<and> num_elements hashtable' = num_elements hashtable
       \<and> size_tab hashtable' = size_tab hashtable
       \<and> alloc hashtable' = alloc hashtable
       \<and> hashtable_has_key hashtable' k
       \<and> hashtable_lookup hashtable' k
           = (if alloc hashtable \<and> e \<noteq> NULL \<and> sz \<noteq> 0 then value_p m else e)
       \<and> h' = (let h1 = (if alloc hashtable \<and> hashtable_lookup hashtable k \<noteq> NULL
                         then free h (hashtable_lookup hashtable k) else h)
               in if alloc hashtable \<and> e \<noteq> NULL \<and> sz \<noteq> 0
                  then memcpy h1 (value_p m) e sz else h1)
       \<and> hashtable_inv hashtable'"
proof -
  let ?i = "hashtable_compute_hash hashtable k"
  let ?ch = "table hashtable ! ?i"
  from assms(2) have "add_loop m (alloc hashtable) h k e sz ?ch \<noteq> None"
    by (simp add: add_loop_None_iff hashtable_has_key_def)
  then obtain r h1 ch' where al: "add_loop m (alloc hashtable) h k e sz ?ch = Some (r, h1, ch')"
    by (cases "add_loop m (alloc hashtable) h k e sz ?ch") auto
  with assms(3) have r: "r = 0" and h: "h1 = h'"
    and t: "hashtable' = hashtable\<lparr>table := (table hashtable)[?i := ch']\<rparr>"
    by (simp_all add: hashtable_add_def Let_def)
  note al0 = al [unfolded r h]
  have i: "?i < length (table hashtable)" by (rule hashtable_inv_D(4) [OF assms(1)])
  have keys: "map key ch' = map key ?ch" by (rule add_loop_keys [OF al0])
  then have km: "map (map key) (table hashtable') = map (map key) (table hashtable)"
    by (simp add: t map_list_update_same)
  have len: "length (table hashtable') = size_tab hashtable'"
    using hashtable_inv_D(2) [OF assms(1)] by (simp add: t)
  from km have "map length (map (map key) (table hashtable'))
      = map length (map (map key) (table hashtable))" by simp
  then have "map length (table hashtable') = map length (table hashtable)"
    by (simp add: comp_def)
  then have ne: "num_elements hashtable' = num_elements hashtable"
    using len hashtable_inv_D(2) [OF assms(1)] by (simp add: num_elements_sum)
  have lk: "hashtable_lookup hashtable' k
      = (if alloc hashtable \<and> e \<noteq> NULL \<and> sz \<noteq> 0 then value_p m else e)"
    using i add_loop_lookup_same [OF al0] by (simp add: t hashtable_lookup_def)
  have hk: "hashtable_has_key hashtable' k"
    using i assms(2) has_key_loop_cong [OF keys] by (simp add: t hashtable_has_key_def)
  have hp: "h' = (let h1 = (if alloc hashtable \<and> hashtable_lookup hashtable k \<noteq> NULL
                         then free h (hashtable_lookup hashtable k) else h)
               in if alloc hashtable \<and> e \<noteq> NULL \<and> sz \<noteq> 0
                  then memcpy h1 (value_p m) e sz else h1)"
    using add_loop_heap [OF al0] add_loop_result [OF al0]
    by (auto simp: hashtable_lookup_def Let_def split: if_splits)
  have inv: "hashtable_inv hashtable'"
    using hashtable_add_inv [OF assms(1), of m h k e sz] assms(3) by simp
  from km ne lk hk hp inv show ?thesis by (simp add: t)
qed

lemma hashtable_remove_present:
  assumes "hashtable_inv t" and "hashtable_has_key t k"
    and "hashtable_remove t k = (v, t')"
  shows "v = hashtable_lookup t k" and "\<not> hashtable_has_key t' k" and "hashtable_lookup t' k = NULL"
    and "num_elements t = num_elements t' + 1" and "count t' = count t"
proof -
  let ?i = "hashtable_compute_hash t k"
  let ?ch = "table t ! ?i"
  from assms(2) obtain v1 ch' where rl: "remove_loop k ?ch = Some (v1, ch')"
    by (cases "remove_loop k ?ch") (auto simp: remove_loop_None_iff hashtable_has_key_def)
  with assms(3) have v: "v1 = v" and t: "t' = t\<lparr>table := (table t)[?i := ch']\<rparr>"
    by (simp_all add: hashtable_remove_def Let_def)
  have i: "?i < length (table t)" by (rule hashtable_inv_D(4) [OF assms(1)])
  show "v = hashtable_lookup t k"
    using remove_loop_value [OF rl] v by (simp add: hashtable_lookup_def)
  have d: "distinct (map (\<lambda>c. cstr (key c)) ?ch)"
    using hashtable_inv_D(5) [OF assms(1), of k]
    by (simp add: chain_inv_cstr_keys) (simp add: chain_inv_def)
  from remove_loop_gone [OF rl d] i show nk: "\<not> hashtable_has_key t' k"
    by (simp add: t hashtable_has_key_def)
  from remove_loop_gone [OF rl d] i show "hashtable_lookup t' k = NULL"
    by (simp add: t hashtable_lookup_def lookup_loop_absent)
  have "sum_list (map length (table t')) = sum_list (map length (table t)) + length ch' - length ?ch"
    using i by (simp add: t map_update sum_list_update)
  moreover have "length ?ch \<le> sum_list (map length (table t))"
    using i by (simp add: member_le_sum_list)
  ultimately show "num_elements t = num_elements t' + 1"
    using remove_loop_length [OF rl] hashtable_inv_D(2) [OF assms(1)]
    by (simp add: num_elements_sum t)
  show "count t' = count t" by (simp add: t)
qed

theorem hashtable_add_existing_key_witness:
  "hashtable_inv \<lparr>table = [[\<lparr>key = [97], eptr = 30\<rparr>, \<lparr>key = [99], eptr = 9\<rparr>], []],
                  size_tab = 2, count = 2, alloc = True\<rparr>
   \<and> hashtable_has_key \<lparr>table = [[\<lparr>key = [97], eptr = 30\<rparr>, \<lparr>key = [99], eptr = 9\<rparr>], []],
                  size_tab = 2, count = 2, alloc = True\<rparr> [99]
   \<and> hashtable_add \<lparr>element_ok = True, key_ok = True, value_p = 40\<rparr>
        [30 \<mapsto> [1, 2], 9 \<mapsto> [3], 20 \<mapsto> [5, 6]]
        \<lparr>table = [[\<lparr>key = [97], eptr = 30\<rparr>, \<lparr>key = [99], eptr = 9\<rparr>], []],
          size_tab = 2, count = 2, alloc = True\<rparr> [99] 20 2
       = (0, memcpy (free [30 \<mapsto> [1, 2], 9 \<mapsto> [3], 20 \<mapsto> [5, 6]] 9) 40 20 2,
          \<lparr>table = [[\<lparr>key = [97], eptr = 30\<rparr>, \<lparr>key = [99], eptr = 40\<rparr>], []],
            size_tab = 2, count = 2, alloc = True\<rparr>)
   \<and> hashtable_lookup
         \<lparr>table = [[\<lparr>key = [97], eptr = 30\<rparr>, \<lparr>key = [99], eptr = 40\<rparr>], []],
           size_tab = 2, count = 2, alloc = True\<rparr> [99] = 40
   \<and> memcpy (free [30 \<mapsto> [1, 2], 9 \<mapsto> [3], 20 \<mapsto> [5, 6]] 9) 40 20 2 40 = Some [5, 6]
   \<and> num_elements
         \<lparr>table = [[\<lparr>key = [97], eptr = 30\<rparr>, \<lparr>key = [99], eptr = 40\<rparr>], []],
           size_tab = 2, count = 2, alloc = True\<rparr> = 2"
proof -
  let ?t = "\<lparr>table = [[\<lparr>key = [97], eptr = 30\<rparr>, \<lparr>key = [99], eptr = 9\<rparr>], []],
             size_tab = 2, count = 2, alloc = True\<rparr>"
  let ?t' = "\<lparr>table = [[\<lparr>key = [97], eptr = 30\<rparr>, \<lparr>key = [99], eptr = 40\<rparr>], []],
             size_tab = 2, count = 2, alloc = True\<rparr>"
  let ?h = "[30 \<mapsto> [1, 2], 9 \<mapsto> [3], 20 \<mapsto> [5, 6 :: byte]] :: heap"
  let ?m = "\<lparr>element_ok = True, key_ok = True, value_p = 40\<rparr>"
  have hash: "hashtable_compute_hash ?t [97] = 0" "hashtable_compute_hash ?t [99] = 0"
    by (simp_all add: hashtable_compute_hash_def djb2_def char_to_int_def)
  have two: "{0..<2::nat} = {0, 1}" by auto
  have inv: "hashtable_inv ?t"
    by (simp add: hashtable_inv_def chain_inv_def hash two)
  have hk: "hashtable_has_key ?t [99]"
    by (simp add: hashtable_has_key_def hash)
  have add: "hashtable_add ?m ?h ?t [99] 20 2 = (0, memcpy (free ?h 9) 40 20 2, ?t')"
    by (simp add: hashtable_add_def hash add_found_def)
  have mem: "memcpy (free ?h 9) 40 20 2 40 = Some [5, 6]"
    by (simp add: memcpy_def free_def)
  have upt2: "[0..<2] = [0, 1 :: nat]"
    by (simp add: numeral_2_eq_2)
  have ne: "num_elements ?t = 2"
    by (simp add: num_elements_def upt2)
  note r = hashtable_add_existing_key [OF inv hk add]
  from r have lk: "hashtable_lookup ?t' [99] = 40" by simp
  from r ne have ne': "num_elements ?t' = 2" by simp
  from inv hk add lk mem ne' show ?thesis by blast
qed

subsection \<open>Removal and the count\<close>

lemma scenario_table_eq:
  "add_all Map.empty (the (hashtable_create True True 64 False))
     [(no_copy, key1, 100, 8), (no_copy, key2, 200, 8), (no_copy, key3, 300, 8)]
   = Some (Map.empty, scenario_table)"
  by (simp add: scenario_table_def hashtable_create_def size_t_mult_def hashtable_add_def
      hashtable_compute_hash_def djb2_def char_to_int_def Let_def strdup_def
      key1_def key2_def key3_def no_copy_def)

text \<open>
  C1. The scenario of the specification: after the three insertions the count is 3.
  \<^verbatim>\<open>hashtable_remove\<close> of \<^verbatim>\<open>"key1"\<close> returns the stored element pointer and unlinks
  the element, so that the key is no longer found, but \<^verbatim>\<open>hashtable_get_count\<close>
  still returns 3: the function never writes \<^verbatim>\<open>count\<close>.
\<close>

theorem hashtable_remove_keeps_count:
  "hashtable_get_count scenario_table = 3
   \<and> hashtable_has_key scenario_table key1
   \<and> fst (hashtable_remove scenario_table key1) = 100
   \<and> \<not> hashtable_has_key (snd (hashtable_remove scenario_table key1)) key1
   \<and> hashtable_lookup (snd (hashtable_remove scenario_table key1)) key1 = NULL
   \<and> hashtable_get_count (snd (hashtable_remove scenario_table key1)) = 3"
  by (simp add: scenario_table_def hashtable_create_def size_t_mult_def hashtable_add_def
      hashtable_remove_def hashtable_lookup_def hashtable_has_key_def
      hashtable_get_count_def hashtable_compute_hash_def djb2_def char_to_int_def Let_def
      strdup_def key1_def key2_def key3_def no_copy_def)

text \<open>The count is not written on any path of \<^verbatim>\<open>hashtable_remove\<close>.\<close>

lemma hashtable_remove_count: "count (snd (hashtable_remove t k)) = count t"
  by (simp add: hashtable_remove_def Let_def split: option.splits)

text \<open>
  C2. A table reached from \<^verbatim>\<open>hashtable_create\<close> by one \<^verbatim>\<open>hashtable_add\<close> and one
  \<^verbatim>\<open>hashtable_remove\<close>: after the insertion the count equals the number of elements
  in the chains, after the removal the count is 1 and no element is left.
\<close>

theorem count_differs_after_remove:
  "hashtable_create True True 1 False
     = Some \<lparr>table = [[]], size_tab = 1, count = 0, alloc = False\<rparr>
   \<and> hashtable_add no_copy Map.empty \<lparr>table = [[]], size_tab = 1, count = 0, alloc = False\<rparr>
         [97] 7 0
       = (0, Map.empty, \<lparr>table = [[\<lparr>key = [97], eptr = 7\<rparr>]], size_tab = 1, count = 1,
                         alloc = False\<rparr>)
   \<and> num_elements \<lparr>table = [[\<lparr>key = [97], eptr = 7\<rparr>]], size_tab = 1, count = 1,
                     alloc = False\<rparr> = 1
   \<and> hashtable_remove \<lparr>table = [[\<lparr>key = [97], eptr = 7\<rparr>]], size_tab = 1, count = 1,
                         alloc = False\<rparr> [97]
       = (7, \<lparr>table = [[]], size_tab = 1, count = 1, alloc = False\<rparr>)
   \<and> num_elements \<lparr>table = [[]], size_tab = 1, count = 1, alloc = False\<rparr> = 0
   \<and> hashtable_get_count \<lparr>table = [[]], size_tab = 1, count = 1, alloc = False\<rparr> = 1"
  by (simp add: hashtable_create_def size_t_mult_def hashtable_add_def hashtable_remove_def
      hashtable_get_count_def hashtable_compute_hash_def num_elements_def no_copy_def
      strdup_def)

subsection \<open>Failing insertions\<close>

text \<open>When the key is new, a failing call leaves the memory and the table as they were.\<close>

lemma hashtable_add_new_key_failure:
  "\<not> hashtable_has_key t k \<Longrightarrow> fst (hashtable_add m h t k e sz) \<noteq> 0 \<Longrightarrow>
     hashtable_add m h t k e sz = (- 1, h, t)"
proof -
  assume "\<not> hashtable_has_key t k" and f: "fst (hashtable_add m h t k e sz) \<noteq> 0"
  then have "add_loop m (alloc t) h k e sz (table t ! hashtable_compute_hash t k) = None"
    by (simp add: add_loop_None_iff hashtable_has_key_def)
  with f show ?thesis
    by (simp add: hashtable_add_def Let_def split: if_splits)
qed

text \<open>
  When the key is in the table, a call can only fail at the allocation of the copy, and
  then the element of the key is \<^verbatim>\<open>NULL\<close>, whatever it was.
\<close>

lemma hashtable_add_present_key_failure:
  assumes "hashtable_inv t" and "hashtable_has_key t k"
    and "hashtable_add m h t k e sz = (r, h', t')" and "r \<noteq> 0"
  shows "r = - 1" and "alloc t" and "value_p m = NULL" and "hashtable_lookup t' k = NULL"
    and "h' = (if hashtable_lookup t k \<noteq> NULL then free h (hashtable_lookup t k) else h)"
proof -
  let ?i = "hashtable_compute_hash t k"
  let ?ch = "table t ! ?i"
  from assms(2) obtain r1 h1 ch' where al: "add_loop m (alloc t) h k e sz ?ch = Some (r1, h1, ch')"
    by (cases "add_loop m (alloc t) h k e sz ?ch")
       (auto simp: add_loop_None_iff hashtable_has_key_def)
  with assms(3) have r: "r1 = r" and h: "h1 = h'"
    and t: "t' = t\<lparr>table := (table t)[?i := ch']\<rparr>"
    by (simp_all add: hashtable_add_def Let_def)
  note al' = al [unfolded r h]
  have i: "?i < length (table t)" by (rule hashtable_inv_D(4) [OF assms(1)])
  from add_loop_result [OF al'] assms(4)
  show "r = - 1" and al: "alloc t" and "value_p m = NULL"
    by (auto split: if_splits)
  from add_loop_lookup_failed [OF al' assms(4)] i
  show "hashtable_lookup t' k = NULL"
    by (simp add: t hashtable_lookup_def)
  from add_loop_heap [OF al'] add_loop_result [OF al'] assms(4) al
  show "h' = (if hashtable_lookup t k \<noteq> NULL then free h (hashtable_lookup t k) else h)"
    by (auto simp: hashtable_lookup_def Let_def split: if_splits)
qed

text \<open>
  C3. A table that copies its elements holds the key \<^verbatim>\<open>"a"\<close> with a copy at address
  30. \<^verbatim>\<open>hashtable_add\<close> for the same key fails when \<^verbatim>\<open>malloc\<close> returns \<^verbatim>\<open>NULL\<close> for the
  new copy: it returns -1, but the old copy has been freed before and the element of
  the key is now \<^verbatim>\<open>NULL\<close>.
\<close>

theorem hashtable_add_failure_loses_value:
  "hashtable_add \<lparr>element_ok = True, key_ok = True, value_p = 30\<rparr> [10 \<mapsto> [1, 2]]
       (the (hashtable_create True True 1 True)) [97] 10 2
     = (0, [10 \<mapsto> [1, 2], 30 \<mapsto> [1, 2]],
        \<lparr>table = [[\<lparr>key = [97], eptr = 30\<rparr>]], size_tab = 1, count = 1, alloc = True\<rparr>)
   \<and> hashtable_lookup
        \<lparr>table = [[\<lparr>key = [97], eptr = 30\<rparr>]], size_tab = 1, count = 1, alloc = True\<rparr> [97] = 30
   \<and> hashtable_add \<lparr>element_ok = True, key_ok = True, value_p = NULL\<rparr>
        [10 \<mapsto> [1, 2], 30 \<mapsto> [1, 2]]
        \<lparr>table = [[\<lparr>key = [97], eptr = 30\<rparr>]], size_tab = 1, count = 1, alloc = True\<rparr>
        [97] 10 2
     = (- 1, [10 \<mapsto> [1, 2]],
        \<lparr>table = [[\<lparr>key = [97], eptr = NULL\<rparr>]], size_tab = 1, count = 1, alloc = True\<rparr>)
   \<and> hashtable_lookup
        \<lparr>table = [[\<lparr>key = [97], eptr = NULL\<rparr>]], size_tab = 1, count = 1, alloc = True\<rparr> [97]
       = NULL"
  by (simp add: hashtable_create_def size_t_mult_def hashtable_add_def hashtable_lookup_def
      hashtable_compute_hash_def add_found_def memcpy_def free_def strdup_def)

subsection \<open>hashtable\_get\_keys and its out-parameter\<close>

text \<open>
  C9 as stated fails: with one element in the table and a failing allocation of the key
  array, the caller's variable, whatever it held, holds \<^verbatim>\<open>NULL\<close> after the call.
\<close>

theorem hashtable_get_keys_writes_null:
  "hashtable_get_keys False
      \<lparr>table = [[\<lparr>key = [97], eptr = 7\<rparr>]], size_tab = 1, count = 1, alloc = False\<rparr>
      Indeterminate = (1, Null_keys)
   \<and> snd (hashtable_get_keys False
      \<lparr>table = [[\<lparr>key = [97], eptr = 7\<rparr>]], size_tab = 1, count = 1, alloc = False\<rparr>
      Indeterminate) \<noteq> Indeterminate"
  by (simp add: hashtable_get_keys_def)

text \<open>
  C9, amended. \<^verbatim>\<open>hashtable_get_keys\<close> returns the stored count in every case, also
  when the allocation of the key array fails, so the return value is the same on
  failure and on success. When the stored count is 0 it writes nothing through the
  out-parameter. When the stored count is positive it assigns the result of \<^verbatim>\<open>malloc\<close> to
  \<^verbatim>\<open>*keys\<close>: \<^verbatim>\<open>NULL\<close> on allocation failure, the array otherwise.
\<close>

theorem hashtable_get_keys_out_parameter:
  "fst (hashtable_get_keys array_ok hashtable keys) = count hashtable
   \<and> fst (hashtable_get_keys False hashtable keys) = fst (hashtable_get_keys True hashtable keys)
   \<and> (count hashtable = 0 \<longrightarrow> snd (hashtable_get_keys array_ok hashtable keys) = keys)
   \<and> (0 < count hashtable \<longrightarrow> snd (hashtable_get_keys False hashtable keys) = Null_keys)
   \<and> (0 < count hashtable \<longrightarrow>
        (\<exists>ks. snd (hashtable_get_keys True hashtable keys) = Key_array ks
              \<and> length ks = count hashtable))"
proof -
  have len: "length (fst (keys_loop ks index ch)) = length ks" for ks index ch
    by (induction ks index ch rule: keys_loop.induct) simp_all
  have "length (fst (fold (\<lambda>hash (ks, index). keys_loop ks index (table hashtable ! hash))
                      hs acc)) = length (fst acc)" for hs acc
  proof (induction hs arbitrary: acc)
    case Nil
    show ?case by simp
  next
    case (Cons a hs)
    show ?case by (cases acc) (simp add: Cons.IH len)
  qed
  then show ?thesis by (simp add: hashtable_get_keys_def Let_def)
qed

theorem hashtable_get_keys_out_parameter_witness:
  "0 < count \<lparr>table = [[\<lparr>key = [97], eptr = 7\<rparr>]], size_tab = 1, count = 1, alloc = False\<rparr>
   \<and> snd (hashtable_get_keys False
        \<lparr>table = [[\<lparr>key = [97], eptr = 7\<rparr>]], size_tab = 1, count = 1, alloc = False\<rparr>
        Indeterminate) = Null_keys
   \<and> fst (hashtable_get_keys False
        \<lparr>table = [[\<lparr>key = [97], eptr = 7\<rparr>]], size_tab = 1, count = 1, alloc = False\<rparr>
        Indeterminate) = 1
   \<and> count \<lparr>table = [[]], size_tab = 1, count = 0, alloc = False\<rparr> = 0
   \<and> snd (hashtable_get_keys True \<lparr>table = [[]], size_tab = 1, count = 0, alloc = False\<rparr>
        Indeterminate) = Indeterminate"
  using hashtable_get_keys_out_parameter
      [of False "\<lparr>table = [[\<lparr>key = [97], eptr = 7\<rparr>]], size_tab = 1, count = 1, alloc = False\<rparr>"
          Indeterminate]
    hashtable_get_keys_out_parameter
      [of True "\<lparr>table = [[]], size_tab = 1, count = 0, alloc = False\<rparr>" Indeterminate]
  by simp

subsection \<open>Insertion order\<close>

lemma first_occurrences_Nil [simp]: "first_occurrences [] = []"
  by (simp add: first_occurrences_def)

lemma first_occurrences_snoc:
  "first_occurrences (xs @ [x]) =
     (if x \<in> set xs then first_occurrences xs else first_occurrences xs @ [x])"
  by (simp add: first_occurrences_def)

lemma set_first_occurrences [simp]: "set (first_occurrences xs) = set xs"
  by (simp add: first_occurrences_def)

lemma distinct_first_occurrences [simp]: "distinct (first_occurrences xs)"
  by (simp add: first_occurrences_def)

lemma hashtable_add_shape:
  assumes "hashtable_add m h t k e sz = (0, h', t')"
  shows "\<exists>ch'. t' = t\<lparr>table := (table t)[hashtable_compute_hash t k := ch'],
                       count := count t + (if hashtable_has_key t k then 0 else 1)\<rparr>
            \<and> map key ch' = (if hashtable_has_key t k
                 then map key (table t ! hashtable_compute_hash t k)
                 else map key (table t ! hashtable_compute_hash t k) @ [cstr k])"
proof (cases "add_loop m (alloc t) h k e sz (table t ! hashtable_compute_hash t k)")
  case None
  then have nk: "\<not> hashtable_has_key t k"
    by (simp add: add_loop_None_iff hashtable_has_key_def)
  with None assms show ?thesis
    by (auto simp: hashtable_add_def Let_def strdup_def split: if_splits)
next
  case (Some res)
  obtain r h1 ch' where res: "res = (r, h1, ch')" by (cases res)
  from Some have hk: "hashtable_has_key t k"
    using add_loop_None_iff [of m "alloc t" h k e sz "table t ! hashtable_compute_hash t k"]
    by (simp add: hashtable_has_key_def)
  from Some res have "map key ch' = map key (table t ! hashtable_compute_hash t k)"
    using add_loop_keys by blast
  with Some res assms hk show ?thesis
    by (auto simp: hashtable_add_def Let_def)
qed

lemma holds_keys_create:
  "hashtable_create a b n al = Some t \<Longrightarrow> 0 < n \<Longrightarrow> n * 8 < 2 ^ 64 \<Longrightarrow> holds_keys [] t"
  by (auto simp: hashtable_create_def holds_keys_def num_elements_def size_t_mult_exact
      split: if_splits)

lemma sum_list_length_update:
  assumes "i < length tb"
  shows "sum_list (map length (tb[i := ch])) + length (tb ! i) = sum_list (map length tb) + length ch"
proof -
  have "length (tb ! i) \<le> sum_list (map length tb)"
    using assms by (simp add: member_le_sum_list)
  then show ?thesis using assms by (simp add: map_update sum_list_update)
qed

lemma holds_keys_add:
  assumes hk: "holds_keys ks t" and add: "hashtable_add m h t k e sz = (0, h', t')"
  shows "holds_keys (ks @ [cstr k]) t'"
proof -
  let ?H = "hashtable_compute_hash t"
  let ?i = "?H k"
  from hk have sz: "0 < size_tab t" and len: "length (table t) = size_tab t"
    and cnt: "count t = num_elements t" and cs: "\<forall>k \<in> set ks. cstr k = k"
    and ch: "\<And>j. j < size_tab t \<Longrightarrow>
               map key (table t ! j) = first_occurrences (filter (\<lambda>k. ?H k = j) ks)"
    by (simp_all add: holds_keys_def)
  have i: "?i < size_tab t" using sz by (rule hashtable_compute_hash_less)
  have keys_i: "set (map key (table t ! ?i)) = {x \<in> set ks. ?H x = ?i}"
    by (simp only: ch [OF i] set_first_occurrences set_filter)
  have present: "hashtable_has_key t k \<longleftrightarrow> cstr k \<in> set ks"
  proof -
    have "cstr ` set (map key (table t ! ?i)) = set (map key (table t ! ?i))"
      using cs unfolding keys_i by force
    then have "hashtable_has_key t k \<longleftrightarrow> cstr k \<in> set (map key (table t ! ?i))"
      by (simp only: hashtable_has_key_def has_key_loop_iff_keys)
    then show ?thesis unfolding keys_i by simp
  qed
  from hashtable_add_shape [OF add] obtain ch' where
    t': "t' = t\<lparr>table := (table t)[?i := ch'],
               count := count t + (if hashtable_has_key t k then 0 else 1)\<rparr>"
    and k': "map key ch' = (if hashtable_has_key t k then map key (table t ! ?i)
                            else map key (table t ! ?i) @ [cstr k])"
    by blast
  have H': "hashtable_compute_hash t' = ?H"
    by (simp add: t' fun_eq_iff hashtable_compute_hash_def)
  have len': "length (table t') = size_tab t'" and sz': "0 < size_tab t'"
    and st: "size_tab t' = size_tab t"
    using len sz by (simp_all add: t')
  have n': "num_elements t' + length (table t ! ?i) = num_elements t + length ch'"
    using sum_list_length_update [of ?i "table t" ch'] i len len'
    by (simp add: num_elements_sum) (simp add: t')
  have "length ch' = length (table t ! ?i) + (if hashtable_has_key t k then 0 else 1)"
    using arg_cong [OF k', of length] by (simp split: if_splits)
  with n' cnt have cnt': "count t' = num_elements t'"
    by (simp add: t')
  have cs': "\<forall>x \<in> set (ks @ [cstr k]). cstr x = x"
    using cs by simp
  have ch': "map key (table t' ! j)
      = first_occurrences (filter (\<lambda>x. hashtable_compute_hash t' x = j) (ks @ [cstr k]))"
    if j: "j < size_tab t'" for j
  proof (cases "j = ?i")
    case True
    have "map key (table t' ! j) = map key ch'"
      using i len True by (simp add: t')
    also have "\<dots> = (if cstr k \<in> set ks then map key (table t ! ?i)
                       else map key (table t ! ?i) @ [cstr k])"
      by (simp only: k' present)
    also have "\<dots> = first_occurrences (filter (\<lambda>x. ?H x = ?i) (ks @ [cstr k]))"
      by (simp add: ch [OF i] first_occurrences_snoc)
    finally show ?thesis by (simp only: H' True)
  next
    case False
    then have "map key (table t' ! j) = map key (table t ! j)"
      by (simp add: t')
    also have "\<dots> = first_occurrences (filter (\<lambda>x. ?H x = j) ks)"
      using j st by (simp add: ch)
    also have "\<dots> = first_occurrences (filter (\<lambda>x. ?H x = j) (ks @ [cstr k]))"
      using False by simp
    finally show ?thesis by (simp only: H')
  qed
  from sz' len' cnt' cs' ch' show ?thesis
    by (simp add: holds_keys_def)
qed

lemma holds_keys_add_all:
  "holds_keys ks t \<Longrightarrow> add_all h t calls = Some (h', t') \<Longrightarrow>
     holds_keys (ks @ map call_key calls) t'"
proof (induction calls arbitrary: ks h t)
  case Nil
  then show ?case by simp
next
  case (Cons c calls)
  obtain m k e sz where c: "c = (m, k, e, sz)" by (cases c)
  obtain r h1 t1 where a: "hashtable_add m h t k e sz = (r, h1, t1)"
    by (cases "hashtable_add m h t k e sz")
  from Cons.prems(2) c a have r: "r = 0" and rest: "add_all h1 t1 calls = Some (h', t')"
    by (auto split: if_splits)
  from holds_keys_add [OF Cons.prems(1) a [unfolded r]]
  have "holds_keys (ks @ [cstr k]) t1" .
  from Cons.IH [OF this rest] show ?case
    by (simp add: c call_key_def)
qed

subsection \<open>The loops of hashtable\_get\_keys\<close>

lemma keys_loop_fill:
  "index + length ch \<le> length arr \<Longrightarrow>
     keys_loop arr index ch =
       (take index arr @ map (\<lambda>c. Some (key c)) ch @ drop (index + length ch) arr,
        index + length ch)"
proof (induction ch arbitrary: arr index)
  case Nil
  then show ?case by simp
next
  case (Cons c ch)
  from Cons.prems have i: "index < length arr" by simp
  have "keys_loop (arr[index := Some (key c)]) (index + 1) ch =
       (take (index + 1) (arr[index := Some (key c)]) @ map (\<lambda>c. Some (key c)) ch
          @ drop (index + 1 + length ch) (arr[index := Some (key c)]),
        index + 1 + length ch)"
    using Cons.prems by (intro Cons.IH) simp
  moreover have "take (index + 1) (arr[index := Some (key c)]) = take index arr @ [Some (key c)]"
    using i by (simp add: take_Suc_conv_app_nth)
  moreover have "drop (index + 1 + length ch) (arr[index := Some (key c)])
      = drop (index + 1 + length ch) arr"
    by simp
  ultimately show ?case by simp
qed

lemma keys_fold_fill:
  "index + length (concat chs) \<le> length arr \<Longrightarrow>
     fold (\<lambda>ch (ks, index). keys_loop ks index ch) chs (arr, index) =
       (take index arr @ map Some (concat (map (map key) chs))
          @ drop (index + length (concat chs)) arr,
        index + length (concat chs))"
proof (induction chs arbitrary: arr index)
  case Nil
  then show ?case by simp
next
  case (Cons ch chs)
  let ?arr1 = "take index arr @ map (\<lambda>c. Some (key c)) ch @ drop (index + length ch) arr"
  from Cons.prems have b: "index + length ch \<le> length arr" by simp
  then have l1: "length ?arr1 = length arr" by simp
  have step: "keys_loop arr index ch = (?arr1, index + length ch)"
    by (rule keys_loop_fill [OF b])
  have t1: "take (index + length ch) ?arr1 = take index arr @ map (\<lambda>c. Some (key c)) ch"
    using b by simp
  have d1: "drop (index + length ch + length (concat chs)) ?arr1
      = drop (index + length ch + length (concat chs)) arr"
    using b by (simp add: add.commute)
  have "fold (\<lambda>ch (ks, index). keys_loop ks index ch) chs (?arr1, index + length ch) =
       (take (index + length ch) ?arr1 @ map Some (concat (map (map key) chs))
          @ drop (index + length ch + length (concat chs)) ?arr1,
        index + length ch + length (concat chs))"
    using Cons.prems l1 by (intro Cons.IH) simp
  then show ?case
    by (simp only: fold_Cons comp_apply step prod.case t1 d1)
       (simp add: comp_def add.assoc)
qed

lemma fold_buckets:
  "fold (\<lambda>hash. f (tb ! hash)) [0..<length tb] = fold f tb"
proof -
  have "fold f (map ((!) tb) [0..<length tb]) = fold (f \<circ> (!) tb) [0..<length tb]"
    by (rule fold_map)
  then show ?thesis by (simp only: map_nth comp_def)
qed

lemma map_buckets: "map (\<lambda>hash. f (tb ! hash)) [0..<length tb] = map f tb"
proof -
  have "map f (map ((!) tb) [0..<length tb]) = map (\<lambda>hash. f (tb ! hash)) [0..<length tb]"
    by (simp only: map_map comp_def)
  then show ?thesis by (simp only: map_nth)
qed

lemma length_all_keys:
  assumes "length (table t) = size_tab t" and "count t = num_elements t"
  shows "length (concat (map (map key) (table t))) = count t"
  using assms by (simp add: num_elements_sum length_concat comp_def)

lemma hashtable_get_keys_array:
  assumes "length (table t) = size_tab t" and "count t = num_elements t" and "0 < count t"
  shows "hashtable_get_keys True t kv
           = (count t, Key_array (map Some (concat (map (map key) (table t)))))"
proof -
  have n: "count t = length (concat (table t))"
    using assms(1,2) by (simp add: num_elements_sum length_concat)
  have "fold (\<lambda>hash (ks, index). keys_loop ks index (table t ! hash)) [0..<size_tab t]
          (replicate (count t) None, 0)
      = fold (\<lambda>ch (ks, index). keys_loop ks index ch) (table t) (replicate (count t) None, 0)"
    using fold_buckets [of "\<lambda>ch (ks, index). keys_loop ks index ch" "table t"] assms(1)
    by simp
  also have "\<dots> = (take 0 (replicate (count t) None) @ map Some (concat (map (map key) (table t)))
                      @ drop (0 + length (concat (table t))) (replicate (count t) None),
                    0 + length (concat (table t)))"
    by (rule keys_fold_fill) (simp add: n)
  finally show "hashtable_get_keys True t kv
           = (count t, Key_array (map Some (concat (map (map key) (table t)))))"
    using assms(3) by (simp add: hashtable_get_keys_def Let_def n)
qed

lemma distinct_concat_buckets:
  "distinct js \<Longrightarrow>
     distinct (concat (map (\<lambda>j. first_occurrences (filter (\<lambda>k. H k = j) ks)) js))"
  by (induction js) auto

lemma set_concat_buckets:
  "\<forall>k \<in> set ks. H k < n \<Longrightarrow>
     set (concat (map (\<lambda>j. first_occurrences (filter (\<lambda>k. H k = j) ks)) [0..<n])) = set ks"
  by auto

lemma add_all_size_tab:
  "add_all h t calls = Some (h', t') \<Longrightarrow> size_tab t' = size_tab t"
proof (induction calls arbitrary: h t)
  case Nil
  then show ?case by simp
next
  case (Cons c calls)
  obtain m k e sz where c: "c = (m, k, e, sz)" by (cases c)
  obtain r h1 t1 where a: "hashtable_add m h t k e sz = (r, h1, t1)"
    by (cases "hashtable_add m h t k e sz")
  from Cons.prems c a have r: "r = 0" and rest: "add_all h1 t1 calls = Some (h', t')"
    by (auto split: if_splits)
  from hashtable_add_shape [OF a [unfolded r]] have "size_tab t1 = size_tab t" by auto
  with Cons.IH [OF rest] show ?case by simp
qed

text \<open>
  C5. A table is created with at least one bucket, and with a bucket count whose
  array size in bytes fits \<^verbatim>\<open>size_t\<close>, and filled by successful
  \<^verbatim>\<open>hashtable_add\<close> calls, at least one. When the key array can be allocated,
  \<^verbatim>\<open>hashtable_get_keys\<close> returns the count and an array whose slots are all written:
  bucket after bucket in index order, and for each bucket the keys that hash to it in
  the order of their first insertion, which is the link order of the chain, since a
  new element is linked behind the last one. The array has exactly \<^verbatim>\<open>count\<close> keys,
  no key twice, and they are the keys that were inserted.
\<close>

theorem hashtable_get_keys_after_adds:
  assumes "hashtable_create instance_ok table_ok n al = Some t0"
    and "1 \<le> n" and "n * 8 < 2 ^ 64"
    and "add_all h0 t0 calls = Some (h, hashtable)" and "calls \<noteq> []"
  shows "hashtable_get_keys True hashtable keys =
           (count hashtable,
            Key_array (map Some (concat (map (\<lambda>hash. first_occurrences
               (filter (\<lambda>k. hashtable_compute_hash hashtable k = hash) (map call_key calls)))
               [0..<n]))))
       \<and> length (concat (map (\<lambda>hash. first_occurrences
               (filter (\<lambda>k. hashtable_compute_hash hashtable k = hash) (map call_key calls)))
               [0..<n])) = count hashtable
       \<and> distinct (concat (map (\<lambda>hash. first_occurrences
               (filter (\<lambda>k. hashtable_compute_hash hashtable k = hash) (map call_key calls)))
               [0..<n]))
       \<and> set (concat (map (\<lambda>hash. first_occurrences
               (filter (\<lambda>k. hashtable_compute_hash hashtable k = hash) (map call_key calls)))
               [0..<n])) = set (map call_key calls)
       \<and> (\<forall>hash \<in> {0..<n}. map key (table hashtable ! hash) = first_occurrences
               (filter (\<lambda>k. hashtable_compute_hash hashtable k = hash) (map call_key calls)))"
proof -
  let ?ks = "map call_key calls"
  let ?B = "\<lambda>hash. first_occurrences
               (filter (\<lambda>k. hashtable_compute_hash hashtable k = hash) ?ks)"
  let ?KS = "concat (map ?B [0..<n])"
  from assms(1) have n0: "size_tab t0 = n"
    by (auto simp: hashtable_create_def split: if_splits)
  from assms(2) have pos: "0 < n" by simp
  have "holds_keys [] t0" by (rule holds_keys_create [OF assms(1) pos assms(3)])
  from holds_keys_add_all [OF this assms(4)] have hk: "holds_keys ?ks hashtable" by simp
  have sz: "size_tab hashtable = n"
    using add_all_size_tab [OF assms(4)] n0 by simp
  from hk sz have len: "length (table hashtable) = n"
    and cnt: "count hashtable = num_elements hashtable"
    and ch: "\<forall>hash \<in> {0..<n}. map key (table hashtable ! hash) = ?B hash"
    by (simp_all add: holds_keys_def)
  have "map (map key) (table hashtable)
      = map (\<lambda>hash. map key (table hashtable ! hash)) [0..<length (table hashtable)]"
    by (rule map_buckets [symmetric])
  also have "\<dots> = map ?B [0..<n]"
    using ch by (simp add: len)
  finally have all: "concat (map (map key) (table hashtable)) = ?KS" by simp
  have l: "length ?KS = count hashtable"
    using length_all_keys [of hashtable] len sz cnt by (simp only: all)
  have d: "distinct ?KS"
    by (rule distinct_concat_buckets) simp
  have "\<forall>k \<in> set ?ks. hashtable_compute_hash hashtable k < n"
    using hashtable_compute_hash_less [of hashtable] sz pos by simp
  then have s: "set ?KS = set ?ks"
    by (rule set_concat_buckets)
  from assms(5) have "set ?ks \<noteq> {}" by simp
  with s have "?KS \<noteq> []" by (metis set_empty)
  with l have "0 < count hashtable" by (metis length_greater_0_conv)
  then have "hashtable_get_keys True hashtable keys
      = (count hashtable, Key_array (map Some (concat (map (map key) (table hashtable)))))"
    using hashtable_get_keys_array [of hashtable] len sz cnt by simp
  then have g: "hashtable_get_keys True hashtable keys = (count hashtable, Key_array (map Some ?KS))"
    by (simp only: all)
  from g l d s ch show ?thesis by blast
qed

theorem hashtable_get_keys_after_adds_witness:
  "hashtable_create True True 2 False
     = Some \<lparr>table = [[], []], size_tab = 2, count = 0, alloc = False\<rparr>
   \<and> (1 :: nat) \<le> 2 \<and> (2 :: nat) * 8 < 2 ^ 64
   \<and> add_all Map.empty \<lparr>table = [[], []], size_tab = 2, count = 0, alloc = False\<rparr>
         [(no_copy, [97], 100, 8), (no_copy, [98], 200, 8), (no_copy, [99], 300, 8),
          (no_copy, [97], 400, 8)]
       = Some (Map.empty,
               \<lparr>table = [[\<lparr>key = [97], eptr = 400\<rparr>, \<lparr>key = [99], eptr = 300\<rparr>],
                         [\<lparr>key = [98], eptr = 200\<rparr>]],
                 size_tab = 2, count = 3, alloc = False\<rparr>)
   \<and> hashtable_get_keys True
         \<lparr>table = [[\<lparr>key = [97], eptr = 400\<rparr>, \<lparr>key = [99], eptr = 300\<rparr>],
                   [\<lparr>key = [98], eptr = 200\<rparr>]],
           size_tab = 2, count = 3, alloc = False\<rparr> Indeterminate
       = (3, Key_array [Some [97], Some [99], Some [98]])"
proof -
  let ?init = "\<lparr>table = [[], []], size_tab = 2, count = 0, alloc = False\<rparr>"
  let ?final = "\<lparr>table = [[\<lparr>key = [97], eptr = 400\<rparr>, \<lparr>key = [99], eptr = 300\<rparr>],
                       [\<lparr>key = [98], eptr = 200\<rparr>]],
             size_tab = 2, count = 3, alloc = False\<rparr>"
  let ?calls = "[(no_copy, [97], 100, 8), (no_copy, [98], 200, 8), (no_copy, [99], 300, 8),
          (no_copy, [97], 400, 8)] :: add_call list"
  have r2: "replicate 2 [] = [[], [] :: chain]"
    by (simp add: numeral_2_eq_2)
  have c: "hashtable_create True True 2 False = Some ?init"
    by (simp add: hashtable_create_def size_t_mult_def r2)
  have n: "(1 :: nat) \<le> 2" by simp
  have b: "(2 :: nat) * 8 < 2 ^ 64" by simp
  have a: "add_all Map.empty ?init ?calls = Some (Map.empty, ?final)"
    by (simp add: hashtable_add_def hashtable_compute_hash_def djb2_def char_to_int_def
        add_found_def no_copy_def strdup_def)
  have ne: "?calls \<noteq> []" by simp
  have upt2: "[0..<2] = [0, 1 :: nat]"
    by (simp add: numeral_2_eq_2)
  from hashtable_get_keys_after_adds [OF c n b a ne, of Indeterminate]
  have "hashtable_get_keys True ?final Indeterminate
      = (3, Key_array [Some [97], Some [99], Some [98]])"
    by (simp add: upt2 call_key_def first_occurrences_def hashtable_compute_hash_def djb2_def
        char_to_int_def)
  with c n b a show ?thesis by blast
qed

subsection \<open>The semaphore\<close>

lemma hashtable_add_sync_result:
  "snd (hashtable_add_sync m h t k e sz) = hashtable_add m h t k e sz"
  by (cases "add_loop m (alloc t) h k e sz (table t ! hashtable_compute_hash t k)")
     (auto simp: hashtable_add_sync_def hashtable_add_def Let_def)

lemma hashtable_add_sync_under_lock:
  "under_lock (fst (hashtable_add_sync m h t k e sz))"
  by (cases "add_loop m (alloc t) h k e sz (table t ! hashtable_compute_hash t k)")
     (auto simp: hashtable_add_sync_def Let_def)

lemma hashtable_get_keys_sync_result:
  "snd (hashtable_get_keys_sync ok t kv) = hashtable_get_keys ok t kv"
  by (simp add: hashtable_get_keys_sync_def hashtable_get_keys_def Let_def)

lemma hashtable_remove_sync_result:
  "snd (hashtable_remove_sync t k) = hashtable_remove t k"
  by (cases "remove_loop k (table t ! hashtable_compute_hash t k)")
     (auto simp: hashtable_remove_sync_def hashtable_remove_def Let_def)

text \<open>
  C8 as stated fails for \<^verbatim>\<open>hashtable_release\<close>: on \<^verbatim>\<open>NULL\<close> it never takes the
  semaphore, and on a table it posts the semaphore before it closes it and frees the
  instance.
\<close>

theorem hashtable_release_not_under_lock:
  "fst (hashtable_release Map.empty None) = []
   \<and> \<not> under_lock (fst (hashtable_release Map.empty None))
   \<and> fst (hashtable_release Map.empty
             (Some \<lparr>table = [[\<lparr>key = [97], eptr = 7\<rparr>]], size_tab = 1, count = 1, alloc = False\<rparr>))
       = [Sem_wait, Table_access, Table_access, Sem_post, Sem_close, Free_instance]
   \<and> \<not> under_lock (fst (hashtable_release Map.empty
             (Some \<lparr>table = [[\<lparr>key = [97], eptr = 7\<rparr>]], size_tab = 1, count = 1, alloc = False\<rparr>)))"
  by (simp add: hashtable_release_def)

text \<open>
  C8, amended. On a table with at least one bucket and a bucket array of that length,
  each of \<^verbatim>\<open>hashtable_add\<close>, \<^verbatim>\<open>hashtable_get_count\<close>, \<^verbatim>\<open>hashtable_has_key\<close>,
  \<^verbatim>\<open>hashtable_get_keys\<close>, \<^verbatim>\<open>hashtable_lookup\<close> and \<^verbatim>\<open>hashtable_remove\<close> waits for
  the semaphore before it touches the table and posts it as its last step, on every
  exit path, the failing returns of \<^verbatim>\<open>hashtable_add\<close> included; and with the events
  left out each function is the one defined above. \<^verbatim>\<open>hashtable_release\<close> does not touch
  the semaphore on \<^verbatim>\<open>NULL\<close>; on a table it waits first, but posts before it closes the
  semaphore and frees the instance.
\<close>

theorem hashtable_calls_under_lock:
  assumes "0 < size_tab hashtable" and "length (table hashtable) = size_tab hashtable"
  shows "under_lock (fst (hashtable_add_sync m h hashtable k e sz))
       \<and> snd (hashtable_add_sync m h hashtable k e sz) = hashtable_add m h hashtable k e sz
       \<and> under_lock (fst (hashtable_get_count_sync hashtable))
       \<and> snd (hashtable_get_count_sync hashtable) = hashtable_get_count hashtable
       \<and> under_lock (fst (hashtable_has_key_sync hashtable k))
       \<and> snd (hashtable_has_key_sync hashtable k) = hashtable_has_key hashtable k
       \<and> under_lock (fst (hashtable_get_keys_sync array_ok hashtable keys))
       \<and> snd (hashtable_get_keys_sync array_ok hashtable keys)
           = hashtable_get_keys array_ok hashtable keys
       \<and> under_lock (fst (hashtable_lookup_sync hashtable k))
       \<and> snd (hashtable_lookup_sync hashtable k) = hashtable_lookup hashtable k
       \<and> under_lock (fst (hashtable_remove_sync hashtable k))
       \<and> snd (hashtable_remove_sync hashtable k) = hashtable_remove hashtable k
       \<and> fst (hashtable_release h None) = []
       \<and> fst (hashtable_release h (Some hashtable))
           = [Sem_wait, Table_access, Table_access, Sem_post, Sem_close, Free_instance]"
proof -
  have "under_lock (fst (hashtable_get_keys_sync array_ok hashtable keys))"
    by (simp add: hashtable_get_keys_sync_def Let_def)
  moreover have "under_lock (fst (hashtable_remove_sync hashtable k))"
    by (cases "remove_loop k (table hashtable ! hashtable_compute_hash hashtable k)")
       (auto simp: hashtable_remove_sync_def Let_def)
  ultimately show ?thesis
    by (simp add: hashtable_add_sync_result hashtable_add_sync_under_lock
        hashtable_get_keys_sync_result hashtable_remove_sync_result
        hashtable_get_count_sync_def hashtable_get_count_def
        hashtable_has_key_sync_def hashtable_has_key_def
        hashtable_lookup_sync_def hashtable_lookup_def hashtable_release_def)
qed

theorem hashtable_calls_under_lock_witness:
  "0 < size_tab \<lparr>table = [[\<lparr>key = [97], eptr = 30\<rparr>]], size_tab = 1, count = 1, alloc = True\<rparr>
   \<and> length (table \<lparr>table = [[\<lparr>key = [97], eptr = 30\<rparr>]], size_tab = 1, count = 1,
                     alloc = True\<rparr>) = 1
   \<and> hashtable_add_sync \<lparr>element_ok = True, key_ok = True, value_p = NULL\<rparr> [10 \<mapsto> [1, 2]]
        \<lparr>table = [[\<lparr>key = [97], eptr = 30\<rparr>]], size_tab = 1, count = 1, alloc = True\<rparr>
        [98] 10 2
       = ([Sem_wait, Table_access, Table_access, Table_access, Sem_post], - 1, [10 \<mapsto> [1, 2]],
          \<lparr>table = [[\<lparr>key = [97], eptr = 30\<rparr>]], size_tab = 1, count = 1, alloc = True\<rparr>)
   \<and> under_lock (fst (hashtable_add_sync \<lparr>element_ok = True, key_ok = True, value_p = NULL\<rparr>
        [10 \<mapsto> [1, 2]]
        \<lparr>table = [[\<lparr>key = [97], eptr = 30\<rparr>]], size_tab = 1, count = 1, alloc = True\<rparr>
        [98] 10 2))
   \<and> hashtable_remove_sync
        \<lparr>table = [[\<lparr>key = [97], eptr = 30\<rparr>]], size_tab = 1, count = 1, alloc = True\<rparr> [97]
       = ([Sem_wait, Table_access, Table_access, Sem_post], 30,
          \<lparr>table = [[]], size_tab = 1, count = 1, alloc = True\<rparr>)"
proof -
  let ?tab = "\<lparr>table = [[\<lparr>key = [97], eptr = 30\<rparr>]], size_tab = 1, count = 1, alloc = True\<rparr>"
  have pos: "0 < size_tab ?tab" by simp
  have len: "length (table ?tab) = size_tab ?tab" by simp
  have a: "hashtable_add_sync \<lparr>element_ok = True, key_ok = True, value_p = NULL\<rparr>
        [10 \<mapsto> [1, 2]] ?tab [98] 10 2
       = ([Sem_wait, Table_access, Table_access, Table_access, Sem_post], - 1, [10 \<mapsto> [1, 2]],
          ?tab)"
    by (simp add: hashtable_add_sync_def hashtable_compute_hash_def)
  have r: "hashtable_remove_sync ?tab [97]
       = ([Sem_wait, Table_access, Table_access, Sem_post], 30,
          \<lparr>table = [[]], size_tab = 1, count = 1, alloc = True\<rparr>)"
    by (simp add: hashtable_remove_sync_def hashtable_compute_hash_def)
  from hashtable_calls_under_lock [OF pos len,
      where m = "\<lparr>element_ok = True, key_ok = True, value_p = NULL\<rparr>"
        and h = "[10 \<mapsto> [1, 2]]" and k = "[98]" and e = 10 and sz = 2]
  have "under_lock (fst (hashtable_add_sync \<lparr>element_ok = True, key_ok = True, value_p = NULL\<rparr>
        [10 \<mapsto> [1, 2]] ?tab [98] 10 2))"
    by blast
  with pos a r show ?thesis by simp
qed

end
